theory Spec2Isabelle
  imports Main "HOL-Library.Word" "HOL-Library.Sublist" "HOL-Library.AList"
begin

unbundle bit_operations_syntax

section \<open>Python values\<close>

text \<open>
  A Python \<open>str\<close> is a sequence of Unicode code points; a text file, once opened in text
  mode, is read and written as such a sequence. The decoding of the bytes of a file by
  the locale's encoding is not modelled: a file holds text.
\<close>

type_synonym str = "nat list"

type_synonym path = string

definition ascii :: "string \<Rightarrow> str" where
  "ascii cs = map of_char cs"

text \<open>
  The values the script handles: what \<open>json.load\<close> produces and what the external
  authenticate call may return. A \<open>float\<close> is carried by its text (what
  \<open>float.__repr__\<close> prints, or the literal it was read from); floating-point
  arithmetic is not modelled. \<open>PObject c\<close> is an instance of any class \<open>c\<close> that the JSON
  encoder has no rule for. A \<open>dict\<close> keeps its entries in insertion order; its keys are
  strings, numbers, booleans, \<open>None\<close>, or some other hashable object (\<open>KOther\<close>).
\<close>

datatype pykey = KStr str | KInt int | KBool bool | KNone | KFloat str | KOther string

datatype pyval =
    PNone
  | PBool bool
  | PInt int
  | PFloat str
  | PStr str
  | PList "pyval list"
  | PTuple "pyval list"
  | PDict "(pykey \<times> pyval) list"
  | PObject string

datatype error =
    FileNotFoundError
  | OSError string
  | JSONDecodeError
  | TypeError
  | LibraryFault string

section \<open>The JSON encoder (\<open>json.dump\<close>)\<close>

text \<open>
  \<open>json.dump(obj, fp)\<close> with default arguments writes to \<open>fp\<close>, one after the other, the
  chunks that \<open>json.encoder._make_iterencode\<close> yields (\<open>ensure_ascii=True\<close>, separators
  \<open>', '\<close> and \<open>': '\<close>, no indentation, no key sorting). The generator may raise
  \<open>TypeError\<close> part of the way: the chunks yielded before have been written then. The
  model of a generator is the text of the chunks it yielded and the error it raised, if
  any.
\<close>

type_synonym chunks = "str \<times> error option"

definition yield :: "str \<Rightarrow> chunks" where
  "yield t = (t, None)"

definition raise :: "error \<Rightarrow> chunks" where
  "raise e = ([], Some e)"

definition yield_from :: "chunks \<Rightarrow> chunks \<Rightarrow> chunks" where
  "yield_from a b =
     (case a of
        (t, Some e) \<Rightarrow> (t, Some e)
      | (t, None) \<Rightarrow> (case b of (u, r) \<Rightarrow> (t @ u, r)))"

text \<open>\<open>int.__repr__\<close>: decimal digits, with a minus sign for a negative number.\<close>

fun digits :: "nat \<Rightarrow> str" where
  "digits n = (if n < 10 then [48 + n] else digits (n div 10) @ [48 + n mod 10])"

declare digits.simps [simp del]

definition int_repr :: "int \<Rightarrow> str" where
  "int_repr i = (if i < 0 then 45 # digits (nat (- i)) else digits (nat i))"

text \<open>
  \<open>py_encode_basestring_ascii\<close>: every character matched by
  \<open>ESCAPE_ASCII = ([\\"]|[^\ -~])\<close> is replaced: by its entry in \<open>ESCAPE_DCT\<close>, or by
  \<open>\uXXXX\<close> (four lower-case hexadecimal digits), or, above the basic plane, by a
  surrogate pair of two such escapes.
\<close>

definition hex_digit :: "nat \<Rightarrow> nat" where
  "hex_digit d = (if d < 10 then 48 + d else 87 + d)"

definition hex4 :: "nat \<Rightarrow> str" where
  "hex4 n = [hex_digit (n div 4096 mod 16), hex_digit (n div 256 mod 16),
             hex_digit (n div 16 mod 16), hex_digit (n mod 16)]"

definition ESCAPE_ASCII :: "nat \<Rightarrow> bool" where
  "ESCAPE_ASCII c = (c = 92 \<or> c = 34 \<or> \<not> (32 \<le> c \<and> c \<le> 126))"

definition replace :: "nat \<Rightarrow> str" where
  "replace c =
     (if c = 92 then [92, 92]
      else if c = 34 then [92, 34]
      else if c = 8 then [92, 98]
      else if c = 12 then [92, 102]
      else if c = 10 then [92, 110]
      else if c = 13 then [92, 114]
      else if c = 9 then [92, 116]
      else if c < 0x10000 then [92, 117] @ hex4 c
      else
        (let n = c - 0x10000;
             s1 = 0xd800 OR (drop_bit 10 n AND 0x3ff);
             s2 = 0xdc00 OR (n AND 0x3ff)
         in [92, 117] @ hex4 s1 @ [92, 117] @ hex4 s2))"

definition py_encode_basestring_ascii :: "str \<Rightarrow> str" where
  "py_encode_basestring_ascii s =
     34 # concat (map (\<lambda>c. if ESCAPE_ASCII c then replace c else [c]) s) @ [34]"

text \<open>
  The conversion of a dictionary key in \<open>_iterencode_dict\<close>, in the order of its tests:
  \<open>str\<close>, \<open>float\<close>, \<open>True\<close>, \<open>False\<close>, \<open>None\<close>, \<open>int\<close>; any other key raises.
\<close>

fun key_str :: "pykey \<Rightarrow> error + str" where
  "key_str (KStr s) = Inr s"
| "key_str (KFloat t) = Inr t"
| "key_str (KBool True) = Inr (ascii ''true'')"
| "key_str (KBool False) = Inr (ascii ''false'')"
| "key_str KNone = Inr (ascii ''null'')"
| "key_str (KInt i) = Inr (int_repr i)"
| "key_str (KOther c) = Inl TypeError"

text \<open>
  \<open>_iterencode\<close>, \<open>_iterencode_list\<close> and \<open>_iterencode_dict\<close>. The flag of the two loops
  is their variable \<open>first\<close>. A list writes \<open>[\<close> (or the separator) before each item, a
  dictionary writes \<open>{\<close> first and the separator before each key but the first; a key
  that cannot be converted raises before its separator is written.
\<close>

fun iterencode :: "pyval \<Rightarrow> chunks"
  and iterencode_list :: "bool \<Rightarrow> pyval list \<Rightarrow> chunks"
  and iterencode_dict :: "bool \<Rightarrow> (pykey \<times> pyval) list \<Rightarrow> chunks"
where
  "iterencode (PStr s) = yield (py_encode_basestring_ascii s)"
| "iterencode PNone = yield (ascii ''null'')"
| "iterencode (PBool True) = yield (ascii ''true'')"
| "iterencode (PBool False) = yield (ascii ''false'')"
| "iterencode (PInt i) = yield (int_repr i)"
| "iterencode (PFloat t) = yield t"
| "iterencode (PList xs) =
     (if xs = [] then yield (ascii ''[]'') else iterencode_list True xs)"
| "iterencode (PTuple xs) =
     (if xs = [] then yield (ascii ''[]'') else iterencode_list True xs)"
| "iterencode (PDict kvs) =
     (if kvs = [] then yield (ascii ''{}'')
      else yield_from (yield (ascii ''{'')) (iterencode_dict True kvs))"
| "iterencode (PObject c) = raise TypeError"
| "iterencode_list first [] = yield (ascii '']'')"
| "iterencode_list first (x # xs) =
     yield_from (yield (if first then ascii ''['' else ascii '', ''))
       (yield_from (iterencode x) (iterencode_list False xs))"
| "iterencode_dict first [] = yield (ascii ''}'')"
| "iterencode_dict first ((k, v) # kvs) =
     (case key_str k of
        Inl e \<Rightarrow> raise e
      | Inr ks \<Rightarrow>
          yield_from
            (yield ((if first then [] else ascii '', '') @ py_encode_basestring_ascii ks @ ascii '': ''))
            (yield_from (iterencode v) (iterencode_dict False kvs)))"

definition json_dumps :: "pyval \<Rightarrow> error + str" where
  "json_dumps obj = (case iterencode obj of (t, None) \<Rightarrow> Inr t | (t, Some e) \<Rightarrow> Inl e)"

section \<open>The JSON decoder (\<open>json.load\<close>)\<close>

text \<open>\<open>WHITESPACE = [ \t\n\r]*\<close>.\<close>

definition is_ws :: "nat \<Rightarrow> bool" where
  "is_ws c = (c = 32 \<or> c = 9 \<or> c = 10 \<or> c = 13)"

definition skip_ws :: "str \<Rightarrow> str" where
  "skip_ws s = dropWhile is_ws s"

text \<open>
  \<open>_decode_uXXXX\<close>: the four characters after \<open>\u\<close> must be hexadecimal digits, of
  either case.
\<close>

definition hex_val :: "nat \<Rightarrow> nat option" where
  "hex_val c =
     (if 48 \<le> c \<and> c \<le> 57 then Some (c - 48)
      else if 97 \<le> c \<and> c \<le> 102 then Some (c - 87)
      else if 65 \<le> c \<and> c \<le> 70 then Some (c - 55)
      else None)"

fun decode_uXXXX :: "str \<Rightarrow> nat option" where
  "decode_uXXXX (a # b # c # d # s) =
     (case (hex_val a, hex_val b, hex_val c, hex_val d) of
        (Some x, Some y, Some z, Some w) \<Rightarrow> Some (((x * 16 + y) * 16 + z) * 16 + w)
      | _ \<Rightarrow> None)"
| "decode_uXXXX s = None"

text \<open>The table \<open>BACKSLASH\<close> of the one-letter escapes.\<close>

definition BACKSLASH :: "nat \<Rightarrow> nat option" where
  "BACKSLASH esc =
     (if esc = 34 then Some 34
      else if esc = 92 then Some 92
      else if esc = 47 then Some 47
      else if esc = 98 then Some 8
      else if esc = 102 then Some 12
      else if esc = 110 then Some 10
      else if esc = 114 then Some 13
      else if esc = 116 then Some 9
      else None)"

text \<open>
  \<open>scanstring\<close> (strict mode), called just after the opening quote: the decoded string
  and the text after the closing quote. A raw control character, an unknown escape, a
  malformed \<open>\uXXXX\<close> and the end of the text before the closing quote are errors. A high
  surrogate escape directly followed by a low surrogate escape is one character.
\<close>

definition cons_char :: "nat \<Rightarrow> (str \<times> str) option \<Rightarrow> (str \<times> str) option" where
  "cons_char c res = map_option (\<lambda>(t, r). (c # t, r)) res"

fun scanstring :: "str \<Rightarrow> (str \<times> str) option" where
  "scanstring [] = None"
| "scanstring (c # s) =
     (if c = 34 then Some ([], s)
      else if c = 92 then
        (case s of
           [] \<Rightarrow> None
         | esc # s1 \<Rightarrow>
             if esc \<noteq> 117 then
               (case BACKSLASH esc of
                  None \<Rightarrow> None
                | Some ch \<Rightarrow> cons_char ch (scanstring s1))
             else
               (case decode_uXXXX s1 of
                  None \<Rightarrow> None
                | Some uni \<Rightarrow>
                    if 0xd800 \<le> uni \<and> uni \<le> 0xdbff \<and> take 2 (drop 4 s1) = [92, 117] then
                      (case decode_uXXXX (drop 6 s1) of
                         None \<Rightarrow> None
                       | Some uni2 \<Rightarrow>
                           if 0xdc00 \<le> uni2 \<and> uni2 \<le> 0xdfff then
                             cons_char (0x10000 + (push_bit 10 (uni - 0xd800) OR (uni2 - 0xdc00)))
                               (scanstring (drop 10 s1))
                           else cons_char uni (scanstring (drop 4 s1)))
                    else cons_char uni (scanstring (drop 4 s1))))
      else if c < 32 then None
      else cons_char c (scanstring s))"

text \<open>
  \<open>NUMBER_RE = (-?(?:0|[1-9][0-9]*))(\.[0-9]+)?([eE][-+]?[0-9]+)?\<close>: the three groups
  of the longest match at the start of the text, and the text after it.
\<close>

definition is_digit :: "nat \<Rightarrow> bool" where
  "is_digit c = (48 \<le> c \<and> c \<le> 57)"

definition match_integer :: "str \<Rightarrow> (str \<times> str) option" where
  "match_integer s =
     (case s of
        [] \<Rightarrow> None
      | c # r \<Rightarrow>
          if c = 48 then Some ([48], r)
          else if 49 \<le> c \<and> c \<le> 57 then Some (c # takeWhile is_digit r, dropWhile is_digit r)
          else None)"

definition match_frac :: "str \<Rightarrow> str \<times> str" where
  "match_frac s =
     (case s of
        c # r \<Rightarrow>
          if c = 46 \<and> takeWhile is_digit r \<noteq> [] then (c # takeWhile is_digit r, dropWhile is_digit r)
          else ([], s)
      | [] \<Rightarrow> ([], s))"

definition match_exp :: "str \<Rightarrow> str \<times> str" where
  "match_exp s =
     (case s of
        c # r \<Rightarrow>
          if c = 101 \<or> c = 69 then
            (let sign = (case r of d # r1 \<Rightarrow> if d = 45 \<or> d = 43 then [d] else [] | [] \<Rightarrow> []);
                 r2 = drop (length sign) r
             in if takeWhile is_digit r2 \<noteq> []
                then (c # sign @ takeWhile is_digit r2, dropWhile is_digit r2)
                else ([], s))
          else ([], s)
      | [] \<Rightarrow> ([], s))"

definition match_number :: "str \<Rightarrow> (str \<times> str \<times> str \<times> str) option" where
  "match_number s =
     (let (sign, s0) = (case s of c # r \<Rightarrow> if c = 45 then ([c], r) else ([], s) | [] \<Rightarrow> ([], s))
      in case match_integer s0 of
           None \<Rightarrow> None
         | Some (ds, r1) \<Rightarrow>
             (case match_frac r1 of
                (frac, r2) \<Rightarrow> (case match_exp r2 of (exp, r3) \<Rightarrow> Some (sign @ ds, frac, exp, r3))))"

text \<open>\<open>int(text)\<close> on the first group of a match.\<close>

definition digits_val :: "str \<Rightarrow> nat" where
  "digits_val ds = foldl (\<lambda>a c. 10 * a + (c - 48)) 0 ds"

definition parse_int :: "str \<Rightarrow> int" where
  "parse_int t =
     (case t of
        c # ds \<Rightarrow> if c = 45 then - int (digits_val ds) else int (digits_val t)
      | [] \<Rightarrow> 0)"

text \<open>
  \<open>dict(pairs)\<close>: a key that occurs again keeps its place and takes the later value.
\<close>

definition dict :: "(pykey \<times> pyval) list \<Rightarrow> (pykey \<times> pyval) list" where
  "dict pairs = foldl (\<lambda>d (k, v). AList.update k v d) [] pairs"

text \<open>
  \<open>scan_once\<close> (\<open>py_make_scanner\<close>), \<open>JSONArray\<close> and \<open>JSONObject\<close>. Each returns the
  value read and the text after it, or nothing where Python raises \<open>JSONDecodeError\<close>.
  \<open>JSONArray\<close> is entered at the first item of a non-empty array, \<open>JSONObject\<close>
  just after the opening quote of a key; both are the bodies of the \<open>while True\<close>
  loops. The first argument bounds the number of nested calls; \<open>json_loads\<close> gives
  more than the length of the text, which no run uses up.
\<close>

fun scan_once :: "nat \<Rightarrow> str \<Rightarrow> (pyval \<times> str) option"
  and JSONArray :: "nat \<Rightarrow> str \<Rightarrow> (pyval list \<times> str) option"
  and JSONObject :: "nat \<Rightarrow> str \<Rightarrow> ((pykey \<times> pyval) list \<times> str) option"
where
  "scan_once 0 s = None"
| "scan_once (Suc n) [] = None"
| "scan_once (Suc n) (c # r) =
     (if c = 34 then map_option (\<lambda>(t, r'). (PStr t, r')) (scanstring r)
      else if c = 123 then
        (case skip_ws r of
           [] \<Rightarrow> None
         | d # r1 \<Rightarrow>
             if d = 125 then Some (PDict [], r1)
             else if d = 34 then map_option (\<lambda>(ps, r'). (PDict (dict ps), r')) (JSONObject n r1)
             else None)
      else if c = 91 then
        (case skip_ws r of
           [] \<Rightarrow> None
         | d # r1 \<Rightarrow>
             if d = 93 then Some (PList [], r1)
             else map_option (\<lambda>(vs, r'). (PList vs, r')) (JSONArray n (d # r1)))
      else if take 4 (c # r) = ascii ''null'' then Some (PNone, drop 3 r)
      else if take 4 (c # r) = ascii ''true'' then Some (PBool True, drop 3 r)
      else if take 5 (c # r) = ascii ''false'' then Some (PBool False, drop 4 r)
      else
        (case match_number (c # r) of
           Some (integer, frac, exp, rest) \<Rightarrow>
             if frac \<noteq> [] \<or> exp \<noteq> [] then Some (PFloat (integer @ frac @ exp), rest)
             else Some (PInt (parse_int integer), rest)
         | None \<Rightarrow>
             if take 3 (c # r) = ascii ''NaN'' then Some (PFloat (ascii ''NaN''), drop 2 r)
             else if take 8 (c # r) = ascii ''Infinity'' then Some (PFloat (ascii ''Infinity''), drop 7 r)
             else if take 9 (c # r) = ascii ''-Infinity'' then Some (PFloat (ascii ''-Infinity''), drop 8 r)
             else None))"
| "JSONArray 0 s = None"
| "JSONArray (Suc n) s =
     (case scan_once n s of
        None \<Rightarrow> None
      | Some (v, r) \<Rightarrow>
          (case skip_ws r of
             [] \<Rightarrow> None
           | d # r1 \<Rightarrow>
               if d = 93 then Some ([v], r1)
               else if d = 44 then map_option (\<lambda>(vs, r'). (v # vs, r')) (JSONArray n (skip_ws r1))
               else None))"
| "JSONObject 0 s = None"
| "JSONObject (Suc n) s =
     (case scanstring s of
        None \<Rightarrow> None
      | Some (key, r) \<Rightarrow>
          (case skip_ws r of
             [] \<Rightarrow> None
           | d # r1 \<Rightarrow>
               if d \<noteq> 58 then None
               else
                 (case scan_once n (skip_ws r1) of
                    None \<Rightarrow> None
                  | Some (v, r2) \<Rightarrow>
                      (case skip_ws r2 of
                         [] \<Rightarrow> None
                       | d' # r3 \<Rightarrow>
                           if d' = 125 then Some ([(KStr key, v)], r3)
                           else if d' = 44 then
                             (case skip_ws r3 of
                                [] \<Rightarrow> None
                              | q # r4 \<Rightarrow>
                                  if q = 34
                                  then map_option (\<lambda>(ps, r'). ((KStr key, v) # ps, r')) (JSONObject n r4)
                                  else None)
                           else None))))"

text \<open>
  \<open>json.loads\<close>: leading white space, one value, trailing white space, and nothing
  else (\<open>Extra data\<close> otherwise).
\<close>

definition json_loads :: "str \<Rightarrow> error + pyval" where
  "json_loads s =
     (let s1 = skip_ws s
      in case scan_once (Suc (length s1)) s1 of
           None \<Rightarrow> Inl JSONDecodeError
         | Some (obj, r) \<Rightarrow> if skip_ws r = [] then Inr obj else Inl JSONDecodeError)"

section \<open>The world of the script\<close>

text \<open>
  The file system maps a path to the text of the file there. Every call the script
  makes is recorded in a trace, in the order of the calls.
\<close>

datatype mode = Mode_r | Mode_w

datatype Scopes = CALENDAR | OTHER_SCOPE string

record manager =
  client_secrets_dict :: pyval
  redirect_uri :: string

datatype event =
    Open path mode
  | JsonLoad path
  | ManagerInit pyval "string option"
  | AuthCall manager "Scopes list"
  | JsonDump pyval path

record world =
  files :: "path \<rightharpoonup> str"
  trace :: "event list"

text \<open>
  What the script does not decide: whether the operating system refuses to open a file
  (permissions, a directory in the way), whether the constructor of the manager rejects
  the secrets, and what the interactive authentication returns or raises. The calls
  into the external package are taken to leave the two files alone: the file system
  changes by the script's own \<open>open\<close> and \<open>write\<close> only. Faults of
  \<open>fp.write\<close> itself (a full disk) and the limits of the interpreter (recursion depth,
  the digit limit of \<open>int\<close> conversions) are not modelled.
\<close>

record env =
  os_fault :: "path \<Rightarrow> mode \<Rightarrow> error option"
  init_fault :: "pyval \<Rightarrow> error option"
  authenticate :: "manager \<Rightarrow> Scopes list \<Rightarrow> error + pyval"

type_synonym 'a io = "world \<Rightarrow> (error + 'a) \<times> world"

definition seq :: "'a io \<Rightarrow> ('a \<Rightarrow> 'b io) \<Rightarrow> 'b io" where
  "seq m f w = (case m w of (Inl e, w1) \<Rightarrow> (Inl e, w1) | (Inr x, w1) \<Rightarrow> f x w1)"

definition log :: "event \<Rightarrow> world \<Rightarrow> world" where
  "log ev w = w\<lparr>trace := trace w @ [ev]\<rparr>"

text \<open>
  \<open>open(path, 'r')\<close> raises \<open>FileNotFoundError\<close> when there is no file;
  \<open>open(path, 'w')\<close> creates the file or truncates it. The file object is
  modelled by its path.
\<close>

definition py_open :: "env \<Rightarrow> path \<Rightarrow> mode \<Rightarrow> path io" where
  "py_open env p m w =
     (let w1 = log (Open p m) w
      in case os_fault env p m of
           Some e \<Rightarrow> (Inl e, w1)
         | None \<Rightarrow>
             (case m of
                Mode_r \<Rightarrow>
                  (case files w1 p of
                     None \<Rightarrow> (Inl FileNotFoundError, w1)
                   | Some t \<Rightarrow> (Inr p, w1))
              | Mode_w \<Rightarrow> (Inr p, w1\<lparr>files := (files w1)(p \<mapsto> [])\<rparr>)))"

text \<open>\<open>json.load(fp)\<close> is \<open>json.loads(fp.read())\<close>.\<close>

definition json_load :: "path \<Rightarrow> pyval io" where
  "json_load fp w =
     (let w1 = log (JsonLoad fp) w
      in case files w1 fp of
           None \<Rightarrow> (Inl (OSError ''read''), w1)
         | Some t \<Rightarrow> (json_loads t, w1))"

text \<open>\<open>fp.write(chunk)\<close> appends to the file.\<close>

definition fp_write :: "path \<Rightarrow> str \<Rightarrow> world \<Rightarrow> world" where
  "fp_write fp t w =
     w\<lparr>files := (files w)(fp \<mapsto> (case files w fp of None \<Rightarrow> t | Some old \<Rightarrow> old @ t))\<rparr>"

text \<open>
  \<open>json.dump(obj, fp)\<close>: \<open>for chunk in iterable: fp.write(chunk)\<close>. The chunks
  yielded before an error are in the file when the error leaves the \<open>with\<close> block.
\<close>

definition json_dump :: "pyval \<Rightarrow> path \<Rightarrow> unit io" where
  "json_dump obj fp w =
     (let w1 = log (JsonDump obj fp) w
      in case iterencode obj of
           (t, None) \<Rightarrow> (Inr (), fp_write fp t w1)
         | (t, Some e) \<Rightarrow> (Inl e, fp_write fp t w1))"

text \<open>
  Modelled from the spec: the class \<open>GoogleOAuthManager\<close> of the external package
  \<open>google_client.auth\<close>, which is not in the repository. Its constructor takes a
  client-secret structure and an optional redirect URI, whose default is
  \<open>http://localhost:8080\<close>.
\<close>

definition GoogleOAuthManager :: "env \<Rightarrow> pyval \<Rightarrow> string option \<Rightarrow> manager io" where
  "GoogleOAuthManager env secrets redirect w =
     (let w1 = log (ManagerInit secrets redirect) w
      in case init_fault env secrets of
           Some e \<Rightarrow> (Inl e, w1)
         | None \<Rightarrow>
             (Inr \<lparr>client_secrets_dict = secrets,
                   redirect_uri = (case redirect of None \<Rightarrow> ''http://localhost:8080'' | Some u \<Rightarrow> u)\<rparr>,
              w1))"

text \<open>
  The method \<open>authenticate_via_local_server\<close> of the manager: the interactive flow is
  the environment's; it returns a structure or raises.
\<close>

definition authenticate_via_local_server :: "env \<Rightarrow> manager \<Rightarrow> Scopes list \<Rightarrow> pyval io" where
  "authenticate_via_local_server env m scopes w =
     (authenticate env m scopes, log (AuthCall m scopes) w)"

section \<open>The script \<open>get_calendar_details.py\<close>\<close>

definition get_calendar_details :: "env \<Rightarrow> unit io" where
  "get_calendar_details env =
     seq (py_open env ''credentials.json'' Mode_r) (\<lambda>f.
     seq (json_load f) (\<lambda>client_secrets.
     seq (GoogleOAuthManager env client_secrets None) (\<lambda>oauth_manager.
     seq (authenticate_via_local_server env oauth_manager [CALENDAR]) (\<lambda>user_info.
     seq (py_open env ''user_token.json'' Mode_w) (\<lambda>f.
     json_dump user_info f)))))"

text \<open>A run of the script on a file system, with an empty trace.\<close>

definition run :: "env \<Rightarrow> (path \<rightharpoonup> str) \<Rightarrow> (error + unit) \<times> world" where
  "run env fs = get_calendar_details env \<lparr>files = fs, trace = []\<rparr>"

section \<open>Structures that JSON represents as they are\<close>

text \<open>
  A Unicode scalar value is a code point that is not a surrogate. A structure is
  JSON-native when it is built from \<open>None\<close>, booleans, integers, strings of scalar
  values, lists, and dictionaries whose keys are such strings (and distinct, as the keys
  of a \<open>dict\<close> are).
\<close>

definition scalar_value :: "nat \<Rightarrow> bool" where
  "scalar_value c = (c < 0xd800 \<or> (0xdfff < c \<and> c < 0x110000))"

fun json_native :: "pyval \<Rightarrow> bool"
  and json_native_list :: "pyval list \<Rightarrow> bool"
  and json_native_dict :: "(pykey \<times> pyval) list \<Rightarrow> bool"
where
  "json_native PNone = True"
| "json_native (PBool b) = True"
| "json_native (PInt i) = True"
| "json_native (PFloat t) = False"
| "json_native (PStr s) = list_all scalar_value s"
| "json_native (PList xs) = json_native_list xs"
| "json_native (PTuple xs) = False"
| "json_native (PDict kvs) = (distinct (map fst kvs) \<and> json_native_dict kvs)"
| "json_native (PObject c) = False"
| "json_native_list [] = True"
| "json_native_list (x # xs) = (json_native x \<and> json_native_list xs)"
| "json_native_dict [] = True"
| "json_native_dict ((k, v) # kvs) =
     ((case k of KStr s \<Rightarrow> list_all scalar_value s | _ \<Rightarrow> False)
      \<and> json_native v \<and> json_native_dict kvs)"

section \<open>Sample runs\<close>

text \<open>
  The inputs of the examples below. In \<open>jtext\<close> an apostrophe stands for the double
  quote of JSON.
\<close>

definition jtext :: "string \<Rightarrow> str" where
  "jtext cs = map (\<lambda>c. if c = CHR 0x27 then 34 else of_char c) cs"

definition demo_fs :: "path \<rightharpoonup> str" where
  "demo_fs = [''credentials.json'' \<mapsto> jtext ''{'installed': {'client_id': 'abc'}}'',
              ''user_token.json'' \<mapsto> jtext ''{'token': 'old'}'']"

definition demo_env :: "error + pyval \<Rightarrow> env" where
  "demo_env res =
     \<lparr>os_fault = (\<lambda>p m. None), init_fault = (\<lambda>s. None), authenticate = (\<lambda>m scopes. res)\<rparr>"

definition demo_secrets :: pyval where
  "demo_secrets =
     PDict [(KStr (ascii ''installed''), PDict [(KStr (ascii ''client_id''), PStr (ascii ''abc''))])]"

definition demo_manager :: manager where
  "demo_manager = \<lparr>client_secrets_dict = demo_secrets, redirect_uri = ''http://localhost:8080''\<rparr>"

definition demo_token :: pyval where
  "demo_token =
     PDict [(KStr (ascii ''token''), PStr (ascii ''new'')), (KStr (ascii ''expires_in''), PInt 3599)]"

text \<open>A structure with the keys \<open>1\<close> and \<open>'1'\<close>, which JSON does not tell apart.\<close>

definition clash_token :: pyval where
  "clash_token = PDict [(KInt 1, PStr (ascii ''a'')), (KStr (ascii ''1''), PStr (ascii ''b''))]"

definition full_trace :: "pyval \<Rightarrow> manager \<Rightarrow> pyval \<Rightarrow> event list" where
  "full_trace secrets m v =
     [Open ''credentials.json'' Mode_r, JsonLoad ''credentials.json'', ManagerInit secrets None,
      AuthCall m [CALENDAR], Open ''user_token.json'' Mode_w, JsonDump v ''user_token.json'']"

section \<open>Auxiliary notions for the round trip\<close>

text \<open>
  The characters that may follow a value inside the encoder's output (a comma, a closing
  bracket or brace, or the end of the text), and the characters a value's text may
  start with.
\<close>

definition delimited :: "str \<Rightarrow> bool" where
  "delimited rest = (case rest of [] \<Rightarrow> True | c # r \<Rightarrow> c = 44 \<or> c = 93 \<or> c = 125)"

definition value_start :: "nat \<Rightarrow> bool" where
  "value_start c = (c = 34 \<or> c = 110 \<or> c = 116 \<or> c = 102 \<or> c = 45 \<or> c = 91 \<or> c = 123
     \<or> (48 \<le> c \<and> c \<le> 57))"

section \<open>Valid JSON\<close>




section \<open>Equality of Python values\<close>

text \<open>
  The operator \<open>==\<close> on the values of the model: \<open>bool\<close> is a subclass of \<open>int\<close>
  (\<open>True == 1\<close>), a list never equals a tuple, and two dictionaries are equal when they
  have as many entries and every key of one is a key of the other with an equal value,
  in whatever order. Whether a float or a foreign object equals something depends on
  what is not modelled (the number the float stands for, the object's class): \<open>py_eq\<close>
  is \<open>False\<close> for them, so \<open>py_eq a b\<close> is a sufficient condition for \<open>a == b\<close>.
\<close>

fun val_num :: "pyval \<Rightarrow> int option" where
  "val_num (PInt i) = Some i"
| "val_num (PBool b) = Some (if b then 1 else 0)"
| "val_num v = None"

fun key_eq :: "pykey \<Rightarrow> pykey \<Rightarrow> bool" where
  "key_eq (KStr s) k = (k = KStr s)"
| "key_eq (KInt i) k = (k = KInt i \<or> k = KBool (i = 1) \<and> (i = 0 \<or> i = 1))"
| "key_eq (KBool b) k = (k = KBool b \<or> k = KInt (if b then 1 else 0))"
| "key_eq KNone k = (k = KNone)"
| "key_eq (KFloat t) k = False"
| "key_eq (KOther c) k = False"

fun py_eq :: "pyval \<Rightarrow> pyval \<Rightarrow> bool"
  and py_eq_list :: "pyval list \<Rightarrow> pyval list \<Rightarrow> bool"
  and py_eq_items :: "(pykey \<times> pyval) list \<Rightarrow> (pykey \<times> pyval) list \<Rightarrow> bool"
  and py_eq_lookup :: "pykey \<Rightarrow> pyval \<Rightarrow> (pykey \<times> pyval) list \<Rightarrow> bool"
where
  "py_eq PNone b = (b = PNone)"
| "py_eq (PBool x) b = (val_num b = Some (if x then 1 else 0))"
| "py_eq (PInt i) b = (val_num b = Some i)"
| "py_eq (PFloat t) b = False"
| "py_eq (PStr s) b = (b = PStr s)"
| "py_eq (PList xs) b = (case b of PList ys \<Rightarrow> py_eq_list xs ys | _ \<Rightarrow> False)"
| "py_eq (PTuple xs) b = (case b of PTuple ys \<Rightarrow> py_eq_list xs ys | _ \<Rightarrow> False)"
| "py_eq (PDict kvs) b =
     (case b of PDict kvs' \<Rightarrow> length kvs = length kvs' \<and> py_eq_items kvs kvs' | _ \<Rightarrow> False)"
| "py_eq (PObject c) b = False"
| "py_eq_list [] ys = (ys = [])"
| "py_eq_list (x # xs) ys = (case ys of [] \<Rightarrow> False | y # ys' \<Rightarrow> py_eq x y \<and> py_eq_list xs ys')"
| "py_eq_items [] kvs' = True"
| "py_eq_items ((k, v) # kvs) kvs' = (py_eq_lookup k v kvs' \<and> py_eq_items kvs kvs')"
| "py_eq_lookup k v [] = False"
| "py_eq_lookup k v ((k', v') # kvs') = (if key_eq k k' then py_eq v v' else py_eq_lookup k v kvs')"

text \<open>Two dictionaries with the same entries, inserted in different orders.\<close>

definition token_ab :: pyval where
  "token_ab = PDict [(KStr (ascii ''a''), PInt 1), (KStr (ascii ''b''), PInt 2)]"

definition token_ba :: pyval where
  "token_ba = PDict [(KStr (ascii ''b''), PInt 2), (KStr (ascii ''a''), PInt 1)]"


section \<open>The bound on nested calls decides nothing\<close>

text \<open>
  Every call of the decoder consumes text, and a call that returns a value with some
  bound returns the same value with any bound that is at least the length of the text it
  consumed. So the bound that \<open>json_loads\<close> gives is never used up: where
  \<open>json_loads\<close> fails, no bound makes the decoder read a value followed by white space
  only.
\<close>

lemma length_skip_ws: "length (skip_ws s) \<le> length s"
  by (simp add: skip_ws_def length_dropWhile_le)

lemma cons_char_Some: "cons_char c res = Some (t, r) \<Longrightarrow> \<exists>t'. res = Some (t', r)"
  by (cases res) (auto simp: cons_char_def)

lemma scanstring_shorter: "scanstring s = Some (t, r) \<Longrightarrow> length r < length s"
proof (induction s arbitrary: t rule: scanstring.induct)
  case 1
  then show ?case by simp
next
  case (2 c s)
  show ?case
  proof (cases "c = 34")
    case True
    with "2.prems" show ?thesis by simp
  next
    case f: False
    show ?thesis
    proof (cases "c = 92")
      case False
      with f "2.prems" have lt: "\<not> c < 32" and cc: "cons_char c (scanstring s) = Some (t, r)"
        by (auto split: if_splits)
      from cons_char_Some [OF cc] obtain t' where "scanstring s = Some (t', r)" by blast
      with "2.IH"(5) f False lt have "length r < length s" by blast
      then show ?thesis by simp
    next
      case True
      with f "2.prems" obtain esc s1 where s: "s = esc # s1" by (cases s) auto
      show ?thesis
      proof (cases "esc = 117")
        case False
        with f True s "2.prems" obtain ch where b: "BACKSLASH esc = Some ch"
          and cc: "cons_char ch (scanstring s1) = Some (t, r)"
          by (auto split: option.splits)
        from cons_char_Some [OF cc] obtain t' where "scanstring s1 = Some (t', r)" by blast
        with "2.IH"(1) f True s False b have "length r < length s1" by blast
        then show ?thesis using s by simp
      next
        case u: True
        with f True s "2.prems" obtain uni where d: "decode_uXXXX s1 = Some uni"
          by (auto split: option.splits)
        show ?thesis
        proof (cases "0xd800 \<le> uni \<and> uni \<le> 0xdbff \<and> take 2 (drop 4 s1) = [92, 117]")
          case False
          with f True s u d "2.prems" have cc: "cons_char uni (scanstring (drop 4 s1)) = Some (t, r)"
            by (auto split: option.splits if_splits)
          from cons_char_Some [OF cc] obtain t' where "scanstring (drop 4 s1) = Some (t', r)" by blast
          with "2.IH"(4) f True s u d False
          have "length r < length (drop 4 s1)" by blast
          then show ?thesis using s by simp
        next
          case p: True
          with f True s u d "2.prems" obtain uni2 where d2: "decode_uXXXX (drop 6 s1) = Some uni2"
            by (auto split: option.splits)
          show ?thesis
          proof (cases "0xdc00 \<le> uni2 \<and> uni2 \<le> 0xdfff")
            case True
            with f \<open>c = 92\<close> s u d p d2 "2.prems"
            have cc: "cons_char (0x10000 + (push_bit 10 (uni - 0xd800) OR (uni2 - 0xdc00)))
                (scanstring (drop 10 s1)) = Some (t, r)"
              by (auto split: option.splits if_splits)
            from cons_char_Some [OF cc]
            obtain t' where "scanstring (drop 10 s1) = Some (t', r)" by blast
            with "2.IH"(2) f \<open>c = 92\<close> s u d p d2 True
            have "length r < length (drop 10 s1)" by blast
            then show ?thesis using s by simp
          next
            case False
            with f \<open>c = 92\<close> s u d p d2 "2.prems"
            have cc: "cons_char uni (scanstring (drop 4 s1)) = Some (t, r)"
              by (auto split: option.splits if_splits)
            from cons_char_Some [OF cc]
            obtain t' where "scanstring (drop 4 s1) = Some (t', r)" by blast
            with "2.IH"(3) f \<open>c = 92\<close> s u d p d2 False
            have "length r < length (drop 4 s1)" by blast
            then show ?thesis using s by simp
          qed
        qed
      qed
    qed
  qed
qed


lemma skip_ws_Cons_shorter: "skip_ws s = d # r1 \<Longrightarrow> Suc (length r1) \<le> length s"
  using length_skip_ws [of s] by simp

lemma match_integer_shorter: "match_integer s = Some (ds, r) \<Longrightarrow> length r < length s"
  by (auto simp: match_integer_def less_Suc_eq_le length_dropWhile_le split: list.splits if_splits)

lemma match_frac_shorter: "match_frac s = (f, r) \<Longrightarrow> length r \<le> length s"
  by (auto simp: match_frac_def length_dropWhile_le le_SucI split: list.splits if_splits)

lemma match_exp_shorter: "match_exp s = (e, r) \<Longrightarrow> length r \<le> length s"
proof (cases s)
  case Nil
  assume "match_exp s = (e, r)"
  with Nil show ?thesis by (simp add: match_exp_def)
next
  case (Cons c s')
  assume m: "match_exp s = (e, r)"
  have "length (dropWhile is_digit (drop k s')) \<le> length s'" for k
    using length_dropWhile_le [of is_digit "drop k s'"] by simp
  with m Cons show ?thesis
    by (auto simp: match_exp_def Let_def le_SucI split: if_splits)
qed

lemma match_number_shorter:
  assumes "match_number s = Some (i, f, e, r)"
  shows "length r < length s"
proof -
  obtain sign s0 where s0: "(case s of c # r \<Rightarrow> if c = 45 then ([c], r) else ([], s) | [] \<Rightarrow> ([], s)) = (sign, s0)"
    by (cases "(case s of c # r \<Rightarrow> if c = 45 then ([c], r) else ([], s) | [] \<Rightarrow> ([], s))")
  then have l0: "length s0 \<le> length s" by (auto split: list.splits if_splits)
  from assms s0 obtain ds r1 where mi: "match_integer s0 = Some (ds, r1)"
    by (auto simp: match_number_def split: option.splits)
  obtain f' r2 where mf: "match_frac r1 = (f', r2)" by (cases "match_frac r1")
  obtain e' r3 where me: "match_exp r2 = (e', r3)" by (cases "match_exp r2")
  from assms s0 mi mf me have "r = r3" by (simp add: match_number_def)
  with match_integer_shorter [OF mi] match_frac_shorter [OF mf] match_exp_shorter [OF me] l0
  show ?thesis by simp
qed

lemma scan_progress:
  "scan_once n s = Some (v, r) \<Longrightarrow> length r < length s"
  "JSONArray n' s' = Some (vs, r') \<Longrightarrow> length r' < length s'"
  "JSONObject n'' s'' = Some (ps, r'') \<Longrightarrow> length r'' < length s''"
proof (induction n s and n' s' and n'' s'' arbitrary: v r and vs r' and ps r''
    rule: scan_once_JSONArray_JSONObject.induct)
  case (1 s)
  then show ?case by simp
next
  case (2 n)
  then show ?case by simp
next
  case (3 n c s)
  consider (str) "c = 34" | (obj) "c = 123" | (arr) "c = 91" | (other) "c \<noteq> 34" "c \<noteq> 123" "c \<noteq> 91"
    by blast
  then show ?case
  proof cases
    case str
    with "3.prems" obtain t where "scanstring s = Some (t, r)" by auto
    from scanstring_shorter [OF this] show ?thesis by simp
  next
    case obj
    with "3.prems" obtain d r1 where sk: "skip_ws s = d # r1"
      by (cases "skip_ws s") auto
    note l = skip_ws_Cons_shorter [OF sk]
    show ?thesis
    proof (cases "d = 125")
      case True
      with obj sk "3.prems" have "r = r1" by simp
      with l show ?thesis by simp
    next
      case False
      with obj sk "3.prems" have d: "d = 34" by (auto split: if_splits)
      with obj sk "3.prems" False obtain ps where "JSONObject n r1 = Some (ps, r)" by auto
      from "3.IH"(1) [OF _ _ sk False d this] obj l show ?thesis by simp
    qed
  next
    case arr
    with "3.prems" obtain d r1 where sk: "skip_ws s = d # r1"
      by (cases "skip_ws s") auto
    note l = skip_ws_Cons_shorter [OF sk]
    show ?thesis
    proof (cases "d = 93")
      case True
      with arr sk "3.prems" have "r = r1" by simp
      with l show ?thesis by simp
    next
      case False
      with arr sk "3.prems" obtain vs where "JSONArray n (d # r1) = Some (vs, r)" by auto
      from "3.IH"(2) [OF _ _ _ sk False this] arr l show ?thesis by simp
    qed
  next
    case other
    show ?thesis
    proof (cases "match_number (c # s)")
      case None
      with other "3.prems" show ?thesis
        by (auto simp: less_Suc_eq_le split: if_splits)
    next
      case (Some m)
      obtain i f e rest where m: "m = (i, f, e, rest)" by (cases m)
      from match_number_shorter [OF Some [unfolded m]] have "length rest < length (c # s)" .
      with other "3.prems" Some m show ?thesis
        by (auto simp: less_Suc_eq_le split: if_splits)
    qed
  qed
next
  case (4 s)
  then show ?case by simp
next
  case (5 n s)
  from "5.prems" obtain v r0 where so: "scan_once n s = Some (v, r0)"
    by (cases "scan_once n s") auto
  note l0 = "5.IH"(1) [OF so]
  from "5.prems" so obtain d r1 where sk: "skip_ws r0 = d # r1"
    by (cases "skip_ws r0") auto
  note l1 = skip_ws_Cons_shorter [OF sk]
  show ?case
  proof (cases "d = 93")
    case True
    with so sk "5.prems" have "r' = r1" by simp
    with l0 l1 show ?thesis by simp
  next
    case False
    with so sk "5.prems" have d: "d = 44" by (auto split: if_splits)
    with so sk "5.prems" False obtain vs' where rec: "JSONArray n (skip_ws r1) = Some (vs', r')"
      by auto
    from "5.IH"(2) [OF so _ sk False d rec] have "length r' < length (skip_ws r1)" by simp
    with length_skip_ws [of r1] l0 l1 show ?thesis by simp
  qed
next
  case (6 s)
  then show ?case by simp
next
  case (7 n s)
  from "7.prems" obtain key r0 where ss: "scanstring s = Some (key, r0)"
    by (cases "scanstring s") auto
  note l0 = scanstring_shorter [OF ss]
  from "7.prems" ss obtain d r1 where sk: "skip_ws r0 = d # r1"
    by (cases "skip_ws r0") auto
  note l1 = skip_ws_Cons_shorter [OF sk]
  from "7.prems" ss sk have d: "d = 58" by (auto split: if_splits)
  from "7.prems" ss sk d obtain v r2 where so: "scan_once n (skip_ws r1) = Some (v, r2)"
    by (cases "scan_once n (skip_ws r1)") auto
  from "7.IH"(1) [OF ss _ sk _ so] d have l2: "length r2 < length (skip_ws r1)" by simp
  from "7.prems" ss sk d so obtain d' r3 where sk3: "skip_ws r2 = d' # r3"
    by (cases "skip_ws r2") auto
  note l3 = skip_ws_Cons_shorter [OF sk3]
  show ?case
  proof (cases "d' = 125")
    case True
    with ss sk d so sk3 "7.prems" have "r'' = r3" by simp
    with l0 l1 l2 l3 length_skip_ws [of r1] show ?thesis by simp
  next
    case False
    with ss sk d so sk3 "7.prems" have d': "d' = 44" by (auto split: if_splits)
    with ss sk d so sk3 "7.prems" obtain q r4 where sk4: "skip_ws r3 = q # r4"
      by (cases "skip_ws r3") auto
    note l4 = skip_ws_Cons_shorter [OF sk4]
    from ss sk d so sk3 d' sk4 "7.prems" have q: "q = 34" by (auto split: if_splits)
    with ss sk d so sk3 d' sk4 "7.prems" obtain ps' where rec: "JSONObject n r4 = Some (ps', r'')"
      by auto
    from "7.IH"(2) [OF ss _ sk _ so _ sk3 False d' sk4 q rec] d
    have "length r'' < length r4" by simp
    with l0 l1 l2 l3 l4 length_skip_ws [of r1] show ?thesis by simp
  qed
qed


lemma scan_fuel:
  "scan_once m s = Some (v, r) \<Longrightarrow> length s - length r \<le> n \<Longrightarrow> scan_once n s = Some (v, r)"
  "JSONArray m' s' = Some (vs, r') \<Longrightarrow> length s' - length r' \<le> n' \<Longrightarrow>
     JSONArray n' s' = Some (vs, r')"
  "JSONObject m'' s'' = Some (ps, r'') \<Longrightarrow> length s'' - length r'' \<le> n'' \<Longrightarrow>
     JSONObject n'' s'' = Some (ps, r'')"
proof (induction m s and m' s' and m'' s'' arbitrary: v r n and vs r' n' and ps r'' n''
    rule: scan_once_JSONArray_JSONObject.induct)
  case (1 s)
  then show ?case by simp
next
  case (2 m)
  then show ?case by simp
next
  case (3 m c s)
  from scan_progress(1) [OF "3.prems"(1)] have lr: "length r \<le> length s" by simp
  with "3.prems"(2) obtain k where n: "n = Suc k" and k: "length s - length r \<le> k"
    by (cases n) auto
  consider (obj) "c = 123" | (arr) "c = 91" | (other) "c \<noteq> 123" "c \<noteq> 91"
    by blast
  then show ?case
  proof cases
    case obj
    with "3.prems" obtain d r1 where sk: "skip_ws s = d # r1"
      by (cases "skip_ws s") auto
    note l = skip_ws_Cons_shorter [OF sk]
    show ?thesis
    proof (cases "d = 125")
      case True
      with obj sk "3.prems" show ?thesis unfolding n by simp
    next
      case False
      with obj sk "3.prems" have d: "d = 34" by (auto split: if_splits)
      with obj sk "3.prems" False obtain ps where jo: "JSONObject m r1 = Some (ps, r)"
        and v: "v = PDict (dict ps)" by auto
      from l k have "length r1 - length r \<le> k" by simp
      from "3.IH"(1) [OF _ _ sk False d jo this] obj
      have "JSONObject k r1 = Some (ps, r)" by simp
      with obj sk d v show ?thesis unfolding n by simp
    qed
  next
    case arr
    with "3.prems" obtain d r1 where sk: "skip_ws s = d # r1"
      by (cases "skip_ws s") auto
    note l = skip_ws_Cons_shorter [OF sk]
    show ?thesis
    proof (cases "d = 93")
      case True
      with arr sk "3.prems" show ?thesis unfolding n by simp
    next
      case False
      with arr sk "3.prems" obtain vs where ja: "JSONArray m (d # r1) = Some (vs, r)"
        and v: "v = PList vs" by auto
      from l k have "length (d # r1) - length r \<le> k" by simp
      from "3.IH"(2) [OF _ _ _ sk False ja this] arr
      have "JSONArray k (d # r1) = Some (vs, r)" by simp
      with arr sk False v show ?thesis unfolding n by simp
    qed
  next
    case other
    then have "scan_once (Suc k) (c # s) = scan_once (Suc m) (c # s)" by simp
    with "3.prems"(1) show ?thesis unfolding n by (simp only:)
  qed
next
  case (4 s)
  then show ?case by simp
next
  case (5 m s)
  from "5.prems"(1) obtain v r0 where so: "scan_once m s = Some (v, r0)"
    by (cases "scan_once m s") auto
  from scan_progress(1) [OF so] have l0: "length r0 < length s" .
  from "5.prems"(1) so obtain d r1 where sk: "skip_ws r0 = d # r1"
    by (cases "skip_ws r0") auto
  note l1 = skip_ws_Cons_shorter [OF sk]
  from scan_progress(2) [OF "5.prems"(1)] have lr: "length r' < length s" .
  show ?case
  proof (cases "d = 93")
    case True
    with so sk "5.prems"(1) have r: "r' = r1" and vs: "vs = [v]" by simp_all
    with l0 l1 "5.prems"(2) obtain k where n: "n' = Suc k" and k: "length s - length r0 \<le> k"
      by (cases n') auto
    from "5.IH"(1) [OF so k] have "scan_once k s = Some (v, r0)" .
    with sk True r vs show ?thesis unfolding n by simp
  next
    case False
    with so sk "5.prems"(1) have d: "d = 44" by (auto split: if_splits)
    with so sk "5.prems"(1) False obtain vs' where rec: "JSONArray m (skip_ws r1) = Some (vs', r')"
      and vs: "vs = v # vs'" by auto
    from scan_progress(2) [OF rec] have l2: "length r' < length (skip_ws r1)" .
    note l3 = length_skip_ws [of r1]
    from l0 l1 l2 l3 "5.prems"(2) obtain k where n: "n' = Suc k" and k: "length s - length r0 \<le> k"
      and k2: "length (skip_ws r1) - length r' \<le> k"
      by (cases n') auto
    from "5.IH"(1) [OF so k] have a: "scan_once k s = Some (v, r0)" .
    from "5.IH"(2) [OF so _ sk False d rec k2] have b: "JSONArray k (skip_ws r1) = Some (vs', r')"
      by simp
    from a b sk d vs show ?thesis unfolding n by simp
  qed
next
  case (6 s)
  then show ?case by simp
next
  case (7 m s)
  from "7.prems"(1) obtain key r0 where ss: "scanstring s = Some (key, r0)"
    by (cases "scanstring s") auto
  note l0 = scanstring_shorter [OF ss]
  from "7.prems"(1) ss obtain d r1 where sk: "skip_ws r0 = d # r1"
    by (cases "skip_ws r0") auto
  note l1 = skip_ws_Cons_shorter [OF sk]
  from "7.prems"(1) ss sk have d: "d = 58" by (auto split: if_splits)
  from "7.prems"(1) ss sk d obtain v r2 where so: "scan_once m (skip_ws r1) = Some (v, r2)"
    by (cases "scan_once m (skip_ws r1)") auto
  from scan_progress(1) [OF so] have l2: "length r2 < length (skip_ws r1)" .
  note l2' = length_skip_ws [of r1]
  from "7.prems"(1) ss sk d so obtain d' r3 where sk3: "skip_ws r2 = d' # r3"
    by (cases "skip_ws r2") auto
  note l3 = skip_ws_Cons_shorter [OF sk3]
  show ?case
  proof (cases "d' = 125")
    case True
    with ss sk d so sk3 "7.prems"(1) have r: "r'' = r3" and ps: "ps = [(KStr key, v)]" by simp_all
    with l0 l1 l2 l2' l3 "7.prems"(2) obtain k where n: "n'' = Suc k"
      and k: "length (skip_ws r1) - length r2 \<le> k"
      by (cases n'') auto
    from "7.IH"(1) [OF ss _ sk _ so k] d have "scan_once k (skip_ws r1) = Some (v, r2)" by simp
    with ss sk d sk3 True r ps show ?thesis unfolding n by simp
  next
    case False
    with ss sk d so sk3 "7.prems"(1) have d': "d' = 44" by (auto split: if_splits)
    with ss sk d so sk3 "7.prems"(1) obtain q r4 where sk4: "skip_ws r3 = q # r4"
      by (cases "skip_ws r3") auto
    note l4 = skip_ws_Cons_shorter [OF sk4]
    from ss sk d so sk3 d' sk4 "7.prems"(1) have q: "q = 34" by (auto split: if_splits)
    with ss sk d so sk3 d' sk4 "7.prems"(1) obtain ps' where rec: "JSONObject m r4 = Some (ps', r'')"
      and ps: "ps = (KStr key, v) # ps'" by auto
    from scan_progress(3) [OF rec] have l5: "length r'' < length r4" .
    from l0 l1 l2 l2' l3 l4 l5 "7.prems"(2) obtain k where n: "n'' = Suc k"
      and k: "length (skip_ws r1) - length r2 \<le> k" and k2: "length r4 - length r'' \<le> k"
      by (cases n'') auto
    from "7.IH"(1) [OF ss _ sk _ so k] d have a: "scan_once k (skip_ws r1) = Some (v, r2)" by simp
    from "7.IH"(2) [OF ss _ sk _ so _ sk3 False d' sk4 q rec k2] d
    have b: "JSONObject k r4 = Some (ps', r'')" by simp
    from a b ss sk d sk3 d' sk4 q ps show ?thesis unfolding n by simp
  qed
qed

lemma scan_once_fuel_enough:
  assumes "scan_once m s = Some x"
  shows "scan_once (Suc (length s)) s = Some x"
proof -
  obtain v r where x: "x = (v, r)" by (cases x)
  have "length s - length r \<le> Suc (length s)" by simp
  from scan_fuel(1) [OF assms [unfolded x] this] x show ?thesis by simp
qed

lemma json_loads_error_any_fuel:
  assumes "json_loads s = Inl e" and "scan_once m (skip_ws s) = Some (obj, r)"
  shows "skip_ws r \<noteq> []"
  using assms scan_once_fuel_enough [OF assms(2)]
  by (auto simp: json_loads_def Let_def split: if_splits)

section \<open>The JSON codec: decoding what the encoder wrote\<close>

lemma hex_val_hex_digit: "d < 16 \<Longrightarrow> hex_val (hex_digit d) = Some d"
  by (auto simp: hex_val_def hex_digit_def)

lemma hex4_value:
  fixes n :: nat
  assumes "n < 65536"
  shows "((n div 4096 mod 16 * 16 + n div 256 mod 16) * 16 + n div 16 mod 16) * 16 + n mod 16 = n"
proof -
  define x1 where "x1 = n div 16"
  define x2 where "x2 = x1 div 16"
  define x3 where "x3 = x2 div 16"
  define r0 where "r0 = n mod 16"
  define r1 where "r1 = x1 mod 16"
  define r2 where "r2 = x2 mod 16"
  have d2: "n div 256 = x2"
    unfolding x2_def x1_def by (simp add: div_mult2_eq [symmetric])
  have d3: "n div 4096 = x3"
    unfolding x3_def x2_def x1_def by (simp add: div_mult2_eq [symmetric])
  have "n div 4096 < 16" using assms by simp
  then have m3: "x3 mod 16 = x3" using d3 by simp
  have e0: "n = x1 * 16 + r0" unfolding x1_def r0_def by simp
  have e1: "x1 = x2 * 16 + r1" unfolding x2_def r1_def by simp
  have e2: "x2 = x3 * 16 + r2" unfolding x3_def r2_def by simp
  have "((x3 * 16 + r2) * 16 + r1) * 16 + r0 = n"
    using e0 e1 e2 by simp
  then show ?thesis
    unfolding d2 d3 m3 r0_def [symmetric] r1_def x1_def [symmetric] r2_def .
qed

lemma decode_digits:
  "a < 16 \<Longrightarrow> b < 16 \<Longrightarrow> c < 16 \<Longrightarrow> d < 16 \<Longrightarrow>
   decode_uXXXX (hex_digit a # hex_digit b # hex_digit c # hex_digit d # s)
     = Some (((a * 16 + b) * 16 + c) * 16 + d)"
  by (simp add: hex_val_hex_digit)

lemma decode_hex4:
  assumes "n < 65536"
  shows "decode_uXXXX (hex4 n @ s) = Some n"
proof -
  have "decode_uXXXX (hex4 n @ s)
      = Some (((n div 4096 mod 16 * 16 + n div 256 mod 16) * 16 + n div 16 mod 16) * 16 + n mod 16)"
    unfolding hex4_def append.simps by (rule decode_digits) simp_all
  then show ?thesis unfolding hex4_value [OF assms] .
qed

lemma and_3ff: "(x::nat) AND 0x3ff = x mod 1024"
proof -
  have m: "mask 10 = (1023::nat)" by (simp add: mask_eq_exp_minus_1)
  have "x AND mask 10 = take_bit 10 x" by (simp add: take_bit_eq_mask)
  then show ?thesis unfolding m by (simp add: take_bit_eq_mod)
qed

lemma push_bit_or_small:
  fixes a b :: nat
  assumes "b < 2 ^ n"
  shows "push_bit n a OR b = a * 2 ^ n + b"
proof -
  have b: "take_bit n b = b" using assms by (simp add: take_bit_nat_eq_self)
  have "push_bit n a AND take_bit n b = 0"
    by (rule bit_eqI) (auto simp: bit_simps)
  then have "push_bit n a + b = push_bit n a OR b"
    using b by (simp add: disjunctive_add_eq_or)
  then show ?thesis by (simp add: push_bit_eq_mult)
qed

lemma or_d800: "x < 1024 \<Longrightarrow> (0xd800::nat) OR x = 0xd800 + x"
proof -
  assume x: "x < 1024"
  have p: "push_bit 10 (54::nat) = 0xd800" unfolding push_bit_eq_mult by simp
  have "push_bit 10 54 OR x = 54 * 2 ^ 10 + x"
    by (rule push_bit_or_small) (use x in simp)
  then show ?thesis unfolding p by simp
qed

lemma or_dc00: "x < 1024 \<Longrightarrow> (0xdc00::nat) OR x = 0xdc00 + x"
proof -
  assume x: "x < 1024"
  have p: "push_bit 10 (55::nat) = 0xdc00" unfolding push_bit_eq_mult by simp
  have "push_bit 10 55 OR x = 55 * 2 ^ 10 + x"
    by (rule push_bit_or_small) (use x in simp)
  then show ?thesis unfolding p by simp
qed

lemma surrogate_pair:
  fixes c :: nat
  assumes "0x10000 \<le> c" "c < 0x110000"
  defines "n \<equiv> c - 0x10000"
  defines "s1 \<equiv> 0xd800 OR (drop_bit 10 n AND 0x3ff)"
  defines "s2 \<equiv> 0xdc00 OR (n AND 0x3ff)"
  shows "s1 = 0xd800 + n div 1024" "s2 = 0xdc00 + n mod 1024"
    "0xd800 \<le> s1" "s1 \<le> 0xdbff" "0xdc00 \<le> s2" "s2 \<le> 0xdfff"
    "0x10000 + (push_bit 10 (s1 - 0xd800) OR (s2 - 0xdc00)) = c"
proof -
  have n: "n < 1048576" using assms by simp
  then have d: "n div 1024 < 1024" by simp
  show 1: "s1 = 0xd800 + n div 1024"
    using d by (simp add: s1_def and_3ff drop_bit_eq_div or_d800)
  show 2: "s2 = 0xdc00 + n mod 1024"
    by (simp add: s2_def and_3ff or_dc00)
  show "0xd800 \<le> s1" "s1 \<le> 0xdbff" using 1 d by simp_all
  show "0xdc00 \<le> s2" "s2 \<le> 0xdfff" using 2 by simp_all
  have "push_bit 10 (n div 1024) OR (n mod 1024) = n"
    using push_bit_or_small [of "n mod 1024" 10 "n div 1024"] by simp
  then show "0x10000 + (push_bit 10 (s1 - 0xd800) OR (s2 - 0xdc00)) = c"
    using 1 2 assms by simp
qed


lemma length_hex4 [simp]: "length (hex4 n) = 4"
  by (simp add: hex4_def)

lemma scanstring_u:
  assumes "decode_uXXXX s1 = Some uni" and "\<not> (0xd800 \<le> uni \<and> uni \<le> 0xdbff)"
  shows "scanstring (92 # 117 # s1) = cons_char uni (scanstring (drop 4 s1))"
  using assms by auto

lemma scanstring_pair:
  assumes "decode_uXXXX s1 = Some uni" and "0xd800 \<le> uni" and "uni \<le> 0xdbff"
    and "take 2 (drop 4 s1) = [92, 117]"
    and "decode_uXXXX (drop 6 s1) = Some uni2" and "0xdc00 \<le> uni2" and "uni2 \<le> 0xdfff"
  shows "scanstring (92 # 117 # s1)
     = cons_char (0x10000 + (push_bit 10 (uni - 0xd800) OR (uni2 - 0xdc00))) (scanstring (drop 10 s1))"
  using assms by simp

lemma scanstring_char:
  assumes "scalar_value c"
  shows "scanstring ((if ESCAPE_ASCII c then replace c else [c]) @ after) = cons_char c (scanstring after)"
proof (cases "ESCAPE_ASCII c")
  case False
  then show ?thesis by (simp add: ESCAPE_ASCII_def)
next
  case True
  consider (short) "c \<in> {92, 34, 8, 12, 10, 13, 9}"
    | (bmp) "c \<notin> {92, 34, 8, 12, 10, 13, 9}" "c < 0x10000"
    | (astral) "0x10000 \<le> c"
    by fastforce
  then show ?thesis
  proof cases
    case short
    then show ?thesis using True by (auto simp: replace_def BACKSLASH_def)
  next
    case bmp
    then have r: "replace c = [92, 117] @ hex4 c" by (simp add: replace_def)
    have d: "decode_uXXXX (hex4 c @ after) = Some c" using bmp by (simp add: decode_hex4)
    have n: "\<not> (0xd800 \<le> c \<and> c \<le> 0xdbff)" using assms by (auto simp: scalar_value_def)
    show ?thesis using True scanstring_u [OF d n] by (simp add: r)
  next
    case astral
    then have lt: "c < 0x110000" using assms by (simp add: scalar_value_def)
    define n where "n = c - 0x10000"
    define s1 where "s1 = 0xd800 OR (drop_bit 10 n AND 0x3ff)"
    define s2 where "s2 = 0xdc00 OR (n AND 0x3ff)"
    note sp = surrogate_pair [OF astral lt, folded n_def, folded s1_def s2_def]
    have r: "replace c = [92, 117] @ hex4 s1 @ [92, 117] @ hex4 s2"
      using astral by (simp add: replace_def Let_def n_def s1_def s2_def)
    have d1: "decode_uXXXX ((hex4 s1 @ [92, 117] @ hex4 s2) @ after) = Some s1"
      unfolding append_assoc using sp(4) by (intro decode_hex4) simp
    have d2: "decode_uXXXX (drop 6 ((hex4 s1 @ [92, 117] @ hex4 s2) @ after)) = Some s2"
      using sp(6) by (simp add: decode_hex4)
    have t: "take 2 (drop 4 ((hex4 s1 @ [92, 117] @ hex4 s2) @ after)) = [92, 117]"
      by simp
    show ?thesis
      using True scanstring_pair [OF d1 sp(3) sp(4) t d2 sp(5) sp(6)] sp(7)
      by (simp add: r)
  qed
qed

lemma scanstring_body:
  "list_all scalar_value s \<Longrightarrow>
   scanstring (concat (map (\<lambda>c. if ESCAPE_ASCII c then replace c else [c]) s) @ 34 # rest) = Some (s, rest)"
proof (induction s)
  case Nil
  then show ?case by simp
next
  case (Cons c s)
  then show ?case
    using scanstring_char [of c]
    by (simp add: cons_char_def del: scanstring.simps)
qed

lemma scanstring_encoded:
  "list_all scalar_value s \<Longrightarrow>
   scanstring (tl (py_encode_basestring_ascii s) @ rest) = Some (s, rest)"
  using scanstring_body [of s rest] by (simp add: py_encode_basestring_ascii_def)



lemma digits_zero: "digits 0 = [48]"
  by (simp add: digits.simps)

lemma digits_not_Nil [simp]: "digits n \<noteq> []"
  by (subst digits.simps) simp

lemma digits_all: "list_all is_digit (digits n)"
proof (induction n rule: digits.induct)
  case (1 n)
  show ?case
  proof (cases "n < 10")
    case True
    then show ?thesis by (subst digits.simps) (simp add: is_digit_def)
  next
    case False
    have "n mod 10 < 10" by simp
    then have "is_digit (48 + n mod 10)" unfolding is_digit_def by linarith
    with False 1 show ?thesis by (subst digits.simps) simp
  qed
qed

lemma digits_hd: "0 < n \<Longrightarrow> 49 \<le> hd (digits n) \<and> hd (digits n) \<le> 57"
proof (induction n rule: digits.induct)
  case (1 n)
  show ?case
  proof (cases "n < 10")
    case True
    with 1(2) show ?thesis by (subst (1 2) digits.simps) simp
  next
    case False
    then have "0 < n div 10" by simp
    with False 1(1) have "49 \<le> hd (digits (n div 10)) \<and> hd (digits (n div 10)) \<le> 57" by simp
    with False show ?thesis by (subst (1 2) digits.simps) simp
  qed
qed

lemma digits_val_snoc: "digits_val (ds @ [d]) = 10 * digits_val ds + (d - 48)"
  by (simp add: digits_val_def)

lemma digits_val_digits: "digits_val (digits n) = n"
proof (induction n rule: digits.induct)
  case (1 n)
  show ?case
  proof (cases "n < 10")
    case True
    then show ?thesis by (subst digits.simps) (simp add: digits_val_def)
  next
    case False
    with 1 show ?thesis by (subst digits.simps) (simp add: digits_val_snoc)
  qed
qed

lemma takeWhile_digits:
  assumes "list_all is_digit ds" and "case rest of [] \<Rightarrow> True | c # r \<Rightarrow> \<not> is_digit c"
  shows "takeWhile is_digit (ds @ rest) = ds" and "dropWhile is_digit (ds @ rest) = rest"
  using assms by (induction ds) (auto split: list.splits)

lemma delimited_not_digit: "delimited rest \<Longrightarrow> (case rest of [] \<Rightarrow> True | c # r \<Rightarrow> \<not> is_digit c)"
  by (auto simp: delimited_def is_digit_def split: list.splits)

lemma match_integer_digits:
  assumes "delimited rest"
  shows "match_integer (digits n @ rest) = Some (digits n, rest)"
proof (cases "n = 0")
  case True
  then show ?thesis by (simp add: digits_zero match_integer_def)
next
  case False
  obtain c ds where ds: "digits n = c # ds" by (cases "digits n") simp_all
  with False digits_hd [of n] have c: "49 \<le> c" "c \<le> 57" by simp_all
  from ds digits_all [of n] have "list_all is_digit ds" by simp
  then show ?thesis
    using c ds takeWhile_digits [OF _ delimited_not_digit [OF assms], of ds]
    by (simp add: match_integer_def)
qed

lemma match_frac_delimited: "delimited rest \<Longrightarrow> match_frac rest = ([], rest)"
  by (auto simp: match_frac_def delimited_def split: list.splits)

lemma match_exp_delimited: "delimited rest \<Longrightarrow> match_exp rest = ([], rest)"
  by (auto simp: match_exp_def delimited_def split: list.splits)

lemma digits_hd_not_minus: "hd (digits n) \<noteq> 45"
  using digits_hd [of n] by (cases "n = 0") (simp_all add: digits_zero)

lemma match_number_int_repr:
  assumes "delimited rest"
  shows "match_number (int_repr i @ rest) = Some (int_repr i, [], [], rest)"
proof (cases "i < 0")
  case True
  then show ?thesis
    using assms
    by (simp add: match_number_def int_repr_def match_integer_digits match_frac_delimited match_exp_delimited)
next
  case False
  obtain c ds where ds: "digits (nat i) = c # ds" by (cases "digits (nat i)") simp_all
  with digits_hd_not_minus [of "nat i"] have c: "c \<noteq> 45" by simp
  have "match_integer (c # ds @ rest) = Some (c # ds, rest)"
    using match_integer_digits [OF assms, of "nat i"] ds by simp
  then show ?thesis
    using False assms ds c
    by (simp add: match_number_def int_repr_def match_frac_delimited match_exp_delimited)
qed

lemma parse_int_repr: "parse_int (int_repr i) = i"
proof (cases "i < 0")
  case True
  then show ?thesis by (simp add: parse_int_def int_repr_def digits_val_digits)
next
  case False
  obtain c ds where ds: "digits (nat i) = c # ds" by (cases "digits (nat i)") simp_all
  with digits_hd_not_minus [of "nat i"] have c: "c \<noteq> 45" by simp
  have "digits_val (c # ds) = nat i" using digits_val_digits [of "nat i"] ds by simp
  then show ?thesis using False ds c by (simp add: parse_int_def int_repr_def)
qed

lemma int_repr_first:
  "\<exists>c r. int_repr i = c # r \<and> (c = 45 \<or> (48 \<le> c \<and> c \<le> 57))"
proof (cases "i < 0")
  case True
  then show ?thesis by (simp add: int_repr_def)
next
  case False
  obtain c ds where ds: "digits (nat i) = c # ds" by (cases "digits (nat i)") simp_all
  with digits_all [of "nat i"] have "is_digit c" by simp
  then show ?thesis using False ds by (simp add: int_repr_def is_digit_def)
qed

lemma scan_once_int:
  assumes "delimited rest"
  shows "scan_once (Suc n) (int_repr i @ rest) = Some (PInt i, rest)"
proof -
  obtain c r where cr: "int_repr i = c # r" and c: "c = 45 \<or> (48 \<le> c \<and> c \<le> 57)"
    using int_repr_first by blast
  have m: "match_number (c # r @ rest) = Some (c # r, [], [], rest)"
    using match_number_int_repr [OF assms, of i] cr by simp
  have p: "parse_int (c # r) = i" using parse_int_repr [of i] cr by simp
  show ?thesis
    using c m p by (auto simp: cr ascii_def)
qed


lemma update_fresh: "k \<notin> fst ` set al \<Longrightarrow> AList.update k v al = al @ [(k, v)]"
  by (induction al) auto

lemma dict_foldl:
  "distinct (map fst (acc @ ps)) \<Longrightarrow> foldl (\<lambda>d (k, v). AList.update k v d) acc ps = acc @ ps"
proof (induction ps arbitrary: acc)
  case Nil
  then show ?case by simp
next
  case (Cons p ps)
  obtain k v where p: "p = (k, v)" by (cases p)
  from Cons.prems have "k \<notin> fst ` set acc" by (auto simp: p)
  then have u: "AList.update k v acc = acc @ [(k, v)]" by (rule update_fresh)
  have "distinct (map fst ((acc @ [(k, v)]) @ ps))" using Cons.prems by (simp add: p)
  from Cons.IH [OF this] show ?case by (simp add: p u)
qed

lemma dict_distinct: "distinct (map fst ps) \<Longrightarrow> dict ps = ps"
  using dict_foldl [of "[]" ps] by (simp add: dict_def)

lemma yield_from_yield:
  "yield_from (yield t) b = (t @ fst b, snd b)"
  by (simp add: yield_from_def yield_def split: prod.splits)

lemma yield_from_ok:
  "snd a = None \<Longrightarrow> yield_from a b = (fst a @ fst b, snd b)"
  by (cases a; cases b) (simp add: yield_from_def)

lemma native_encodes:
  "json_native v \<Longrightarrow> snd (iterencode v) = None"
  "json_native_list xs \<Longrightarrow> snd (iterencode_list first xs) = None"
  "json_native_dict kvs \<Longrightarrow> snd (iterencode_dict first' kvs) = None"
proof (induction v and xs and kvs arbitrary: and first and first' rule: json_native_json_native_list_json_native_dict.induct)
  case (2 b)
  then show ?case by (cases b) (simp_all add: yield_def)
next
  case (13 k v kvs)
  then show ?case
    by (cases k) (simp_all add: yield_from_yield yield_from_ok)
qed (simp_all add: yield_def yield_from_yield yield_from_ok)


lemma skip_ws_start: "\<not> is_ws c \<Longrightarrow> skip_ws (c # s) = c # s"
  by (simp add: skip_ws_def)

lemma skip_ws_space: "skip_ws (32 # s) = skip_ws s"
  by (simp add: skip_ws_def is_ws_def)


lemma value_start_not_ws: "value_start c \<Longrightarrow> \<not> is_ws c \<and> c \<noteq> 93"
  by (auto simp: value_start_def is_ws_def)

lemma enc_list_nil: "fst (iterencode_list first []) = [93]"
  by (simp add: yield_def ascii_def)

lemma enc_dict_nil: "fst (iterencode_dict first []) = [125]"
  by (simp add: yield_def ascii_def)

lemma enc_list_cons:
  "json_native x \<Longrightarrow>
   fst (iterencode_list first (x # xs))
     = (if first then [91] else [44, 32]) @ fst (iterencode x) @ fst (iterencode_list False xs)"
  by (simp add: yield_from_yield yield_from_ok native_encodes ascii_def)

lemma enc_dict_cons:
  "json_native v \<Longrightarrow>
   fst (iterencode_dict first ((KStr ks, v) # kvs))
     = (if first then [] else [44, 32]) @ py_encode_basestring_ascii ks @ [58, 32]
         @ fst (iterencode v) @ fst (iterencode_dict False kvs)"
  by (simp add: yield_from_yield yield_from_ok native_encodes ascii_def)

lemma enc_start:
  "json_native v \<Longrightarrow> \<exists>c r. fst (iterencode v) = c # r \<and> value_start c"
proof (cases v)
  case (PBool b)
  then show ?thesis by (cases b) (simp_all add: yield_def ascii_def value_start_def)
next
  case (PInt i)
  then show ?thesis using int_repr_first [of i] by (auto simp: yield_def value_start_def)
next
  case (PList xs)
  assume "json_native v"
  with PList show ?thesis
    by (cases xs) (simp_all add: yield_def ascii_def value_start_def enc_list_cons del: iterencode_list.simps)
next
  case (PDict kvs)
  assume "json_native v"
  with PDict show ?thesis
    by (cases kvs) (simp_all add: yield_def ascii_def value_start_def yield_from_ok)
qed (simp_all add: yield_def ascii_def value_start_def py_encode_basestring_ascii_def)

lemma list_tail_delimited:
  "json_native_list xs \<Longrightarrow> delimited (fst (iterencode_list False xs) @ rest)"
  by (cases xs) (simp_all add: enc_list_nil enc_list_cons delimited_def del: iterencode_list.simps)

lemma dict_tail_delimited:
  "json_native_dict kvs \<Longrightarrow> delimited (fst (iterencode_dict False kvs) @ rest)"
proof (cases kvs)
  case Nil
  then show ?thesis by (simp add: enc_dict_nil delimited_def del: iterencode_dict.simps)
next
  case (Cons p kvs')
  assume n: "json_native_dict kvs"
  obtain k v where p: "p = (k, v)" by (cases p)
  from n Cons p obtain ks where "k = KStr ks" by (cases k) simp_all
  with n Cons p show ?thesis by (simp add: enc_dict_cons delimited_def del: iterencode_dict.simps)
qed

lemma list_tail_not_Nil: "json_native_list xs \<Longrightarrow> fst (iterencode_list False xs) \<noteq> []"
  by (cases xs) (simp_all add: enc_list_nil enc_list_cons del: iterencode_list.simps)

lemma dict_tail_not_Nil: "json_native_dict kvs \<Longrightarrow> fst (iterencode_dict False kvs) \<noteq> []"
proof (cases kvs)
  case Nil
  then show ?thesis by (simp add: enc_dict_nil del: iterencode_dict.simps)
next
  case (Cons p kvs')
  assume n: "json_native_dict kvs"
  obtain k v where p: "p = (k, v)" by (cases p)
  from n Cons p obtain ks where "k = KStr ks" by (cases k) simp_all
  with n Cons p show ?thesis by (simp add: enc_dict_cons del: iterencode_dict.simps)
qed

lemma JSONArray_last:
  assumes "scan_once n (tx @ 93 # rest) = Some (x, 93 # rest)"
  shows "JSONArray (Suc n) (tx @ 93 # rest) = Some ([x], rest)"
  using assms by (simp add: skip_ws_start is_ws_def)

lemma JSONArray_more:
  assumes "scan_once n (tx @ 44 # 32 # c # s) = Some (x, 44 # 32 # c # s)"
    and "value_start c"
    and "JSONArray n (c # s) = Some (xs, rest)"
  shows "JSONArray (Suc n) (tx @ 44 # 32 # c # s) = Some (x # xs, rest)"
  using assms value_start_not_ws [of c]
  by (simp add: skip_ws_start skip_ws_space is_ws_def)

lemma JSONObject_last:
  assumes "scanstring tk = Some (key, 58 # 32 # c # s)"
    and "value_start c"
    and "scan_once n (c # s) = Some (v, 125 # rest)"
  shows "JSONObject (Suc n) tk = Some ([(KStr key, v)], rest)"
  using assms value_start_not_ws [of c]
  by (simp add: skip_ws_start skip_ws_space is_ws_def)

lemma JSONObject_more:
  assumes "scanstring tk = Some (key, 58 # 32 # c # s)"
    and "value_start c"
    and "scan_once n (c # s) = Some (v, 44 # 32 # 34 # s')"
    and "JSONObject n s' = Some (ps, rest)"
  shows "JSONObject (Suc n) tk = Some ((KStr key, v) # ps, rest)"
  using assms value_start_not_ws [of c]
  by (simp add: skip_ws_start skip_ws_space is_ws_def)


lemma enc_list_items:
  "json_native x \<Longrightarrow>
   drop 2 (fst (iterencode_list False (x # xs))) = fst (iterencode x) @ fst (iterencode_list False xs)"
  by (simp add: enc_list_cons del: iterencode_list.simps)

lemma enc_dict_items:
  "json_native v \<Longrightarrow>
   drop 3 (fst (iterencode_dict False ((KStr ks, v) # kvs)))
     = tl (py_encode_basestring_ascii ks) @ [58, 32] @ fst (iterencode v) @ fst (iterencode_dict False kvs)"
  by (simp add: enc_dict_cons py_encode_basestring_ascii_def del: iterencode_dict.simps)

lemma enc_list_first:
  "json_native_list xs \<Longrightarrow> xs \<noteq> [] \<Longrightarrow>
   fst (iterencode_list True xs) = 91 # drop 2 (fst (iterencode_list False xs))"
  by (cases xs) (simp_all add: enc_list_cons del: iterencode_list.simps)

lemma enc_dict_first:
  "json_native_dict kvs \<Longrightarrow> kvs \<noteq> [] \<Longrightarrow>
   fst (iterencode_dict True kvs) = 34 # drop 3 (fst (iterencode_dict False kvs))"
proof (cases kvs)
  case Nil
  assume "kvs \<noteq> []"
  with Nil show ?thesis by simp
next
  case (Cons p kvs')
  assume n: "json_native_dict kvs"
  obtain k v where p: "p = (k, v)" by (cases p)
  from n Cons p obtain ks where "k = KStr ks" by (cases k) simp_all
  with n Cons p show ?thesis
    by (simp add: enc_dict_cons py_encode_basestring_ascii_def del: iterencode_dict.simps)
qed

lemma roundtrip_main:
  "json_native v \<Longrightarrow> delimited rest \<Longrightarrow> length (fst (iterencode v)) \<le> n \<Longrightarrow>
     scan_once n (fst (iterencode v) @ rest) = Some (v, rest)"
  "json_native_list xs \<Longrightarrow> xs \<noteq> [] \<Longrightarrow>
     length (drop 2 (fst (iterencode_list False xs))) \<le> n' \<Longrightarrow>
     JSONArray n' (drop 2 (fst (iterencode_list False xs)) @ rest') = Some (xs, rest')"
  "json_native_dict kvs \<Longrightarrow> kvs \<noteq> [] \<Longrightarrow>
     length (drop 3 (fst (iterencode_dict False kvs))) \<le> n'' \<Longrightarrow>
     JSONObject n'' (drop 3 (fst (iterencode_dict False kvs)) @ rest'') = Some (kvs, rest'')"
proof (induction v and xs and kvs arbitrary: rest n and rest' n' and rest'' n''
    rule: json_native_json_native_list_json_native_dict.induct)
  case 1
  then obtain m where "n = Suc m" by (cases n) (simp_all add: yield_def ascii_def)
  then show ?case by (simp add: yield_def ascii_def)
next
  case (2 b)
  then obtain m where "n = Suc m" by (cases n; cases b) (simp_all add: yield_def ascii_def)
  then show ?case by (cases b) (simp_all add: yield_def ascii_def)
next
  case (3 i)
  then obtain m where "n = Suc m"
    using int_repr_first [of i] by (cases n) (auto simp: yield_def)
  then show ?case using 3 scan_once_int by (simp add: yield_def)
next
  case (4 t)
  then show ?case by simp
next
  case (5 s)
  then obtain m where m: "n = Suc m"
    by (cases n) (simp_all add: yield_def py_encode_basestring_ascii_def)
  have e: "fst (iterencode (PStr s)) = 34 # tl (py_encode_basestring_ascii s)"
    by (simp add: yield_def py_encode_basestring_ascii_def)
  from 5 have "scanstring (tl (py_encode_basestring_ascii s) @ rest) = Some (s, rest)"
    by (simp add: scanstring_encoded)
  then show ?case unfolding e m by simp
next
  case (6 xs)
  show ?case
  proof (cases "xs = []")
    case True
    with 6 obtain m where "n = Suc m" by (cases n) (simp_all add: yield_def ascii_def)
    with True show ?thesis by (simp add: yield_def ascii_def skip_ws_start is_ws_def)
  next
    case False
    from 6(2) have nl: "json_native_list xs" by simp
    let ?items = "drop 2 (fst (iterencode_list False xs))"
    have e: "fst (iterencode (PList xs)) = 91 # ?items"
      using False enc_list_first [OF nl False] by simp
    with 6(4) obtain m where m: "n = Suc m" and len: "length ?items \<le> m"
      by (cases n) simp_all
    obtain x xs' where xs: "xs = x # xs'" using False by (cases xs) simp_all
    with nl have nx: "json_native x" by simp
    obtain c r where cr: "fst (iterencode x) = c # r" and vs: "value_start c"
      using enc_start [OF nx] by blast
    have it: "?items @ rest = c # (r @ fst (iterencode_list False xs') @ rest)"
      unfolding xs enc_list_items [OF nx] cr by simp
    have "JSONArray m (?items @ rest) = Some (xs, rest)"
      using "6.IH" [OF nl False len] .
    then show ?thesis
      unfolding e m using vs value_start_not_ws [OF vs]
      by (simp add: it skip_ws_start value_start_def)
  qed
next
  case (7 xs)
  then show ?case by simp
next
  case (8 kvs)
  show ?case
  proof (cases "kvs = []")
    case True
    with 8 obtain m where "n = Suc m" by (cases n) (simp_all add: yield_def ascii_def)
    with True show ?thesis by (simp add: yield_def ascii_def skip_ws_start is_ws_def)
  next
    case False
    from 8(2) have di: "distinct (map fst kvs)" and nd: "json_native_dict kvs" by simp_all
    let ?items = "drop 3 (fst (iterencode_dict False kvs))"
    have e: "fst (iterencode (PDict kvs)) = 123 # 34 # ?items"
      using False enc_dict_first [OF nd False] by (simp add: yield_from_yield ascii_def)
    with 8(4) obtain m where m: "n = Suc m" and len: "length ?items \<le> m"
      by (cases n) simp_all
    have "JSONObject m (?items @ rest) = Some (kvs, rest)"
      using "8.IH" [OF nd False len] .
    then show ?thesis
      unfolding e m by (simp add: skip_ws_start is_ws_def dict_distinct [OF di])
  qed
next
  case (9 c)
  then show ?case by simp
next
  case 10
  then show ?case by simp
next
  case (11 x xs)
  from "11.prems"(1) have nx: "json_native x" and nl: "json_native_list xs" by simp_all
  let ?tx = "fst (iterencode x)"
  let ?tail = "fst (iterencode_list False xs)"
  have items: "drop 2 (fst (iterencode_list False (x # xs))) = ?tx @ ?tail"
    by (rule enc_list_items [OF nx])
  have tail_ne: "?tail \<noteq> []"
    by (rule list_tail_not_Nil [OF nl])
  from "11.prems"(3) items tail_ne obtain m where m: "n' = Suc m" and lx: "length ?tx \<le> m"
    and lt: "length ?tx + length ?tail \<le> Suc m"
    by (cases n'; cases ?tail) simp_all
  have sx: "scan_once m (?tx @ ?tail @ rest') = Some (x, ?tail @ rest')"
    using "11.IH"(1) [OF nx list_tail_delimited [OF nl] lx] .
  show ?case
  proof (cases "xs = []")
    case True
    then have t: "?tail = [93]" by (simp add: yield_def ascii_def)
    have sx_t: "scan_once m (?tx @ 93 # rest') = Some (x, 93 # rest')"
      using sx unfolding t by simp
    have "JSONArray (Suc m) ((?tx @ ?tail) @ rest') = Some ([x], rest')"
      unfolding t using JSONArray_last [OF sx_t] by simp
    then show ?thesis
      unfolding items m using True by (simp del: JSONArray.simps iterencode_list.simps)
  next
    case False
    then obtain y ys where ys: "xs = y # ys" by (cases xs) simp_all
    with nl have ny: "json_native y" by simp
    obtain c r where cr: "fst (iterencode y) = c # r" and vs: "value_start c"
      using enc_start [OF ny] by blast
    let ?after = "r @ fst (iterencode_list False ys)"
    have te: "?tail = 44 # 32 # c # ?after"
      unfolding ys by (simp add: enc_list_cons [OF ny] cr del: iterencode_list.simps)
    have len': "length (drop 2 ?tail) \<le> m" using lt by simp
    have "JSONArray m (drop 2 ?tail @ rest') = Some (xs, rest')"
      using "11.IH"(2) [OF nl False len'] .
    then have rec: "JSONArray m (c # (?after @ rest')) = Some (xs, rest')"
      unfolding te by simp
    have sx': "scan_once m (?tx @ 44 # 32 # c # (?after @ rest')) = Some (x, 44 # 32 # c # (?after @ rest'))"
      using sx unfolding te by simp
    have "JSONArray (Suc m) (?tx @ 44 # 32 # c # (?after @ rest')) = Some (x # xs, rest')"
      by (rule JSONArray_more [OF sx' vs rec])
    then have "JSONArray (Suc m) ((?tx @ ?tail) @ rest') = Some (x # xs, rest')"
      unfolding te by simp
    then show ?thesis
      unfolding items m .
  qed
next
  case 12
  then show ?case by simp
next
  case (13 k v kvs)
  from "13.prems"(1) obtain ks where k: "k = KStr ks" and sk: "list_all scalar_value ks"
    by (cases k) simp_all
  from "13.prems"(1) have nv: "json_native v" and nd: "json_native_dict kvs" by simp_all
  let ?tk = "tl (py_encode_basestring_ascii ks)"
  let ?tv = "fst (iterencode v)"
  let ?tail = "fst (iterencode_dict False kvs)"
  have items: "drop 3 (fst (iterencode_dict False ((k, v) # kvs))) = ?tk @ [58, 32] @ ?tv @ ?tail"
    unfolding k by (rule enc_dict_items [OF nv])
  obtain c r where cr: "?tv = c # r" and vs: "value_start c"
    using enc_start [OF nv] by blast
  have tail_ne: "?tail \<noteq> []"
    by (rule dict_tail_not_Nil [OF nd])
  from "13.prems"(3) items tail_ne obtain m where m: "n'' = Suc m" and lv: "length ?tv \<le> m"
    and lt: "length ?tv + length ?tail \<le> m"
    by (cases n''; cases ?tail) simp_all
  have key: "scanstring (?tk @ [58, 32] @ ?tv @ ?tail @ rest'') = Some (ks, 58 # 32 # c # (r @ ?tail @ rest''))"
    using scanstring_encoded [OF sk, of "[58, 32] @ ?tv @ ?tail @ rest''"] cr by simp
  have sv: "scan_once m (c # (r @ ?tail @ rest'')) = Some (v, ?tail @ rest'')"
    using "13.IH"(1) [OF nv dict_tail_delimited [OF nd] lv, of rest''] cr by simp
  show ?case
  proof (cases "kvs = []")
    case True
    then have t: "?tail = [125]" by (simp add: yield_def ascii_def)
    have sv_t: "scan_once m (c # (r @ ?tail @ rest'')) = Some (v, 125 # rest'')"
      using sv unfolding t by simp
    have "JSONObject (Suc m) (?tk @ [58, 32] @ ?tv @ ?tail @ rest'') = Some ([(KStr ks, v)], rest'')"
      by (rule JSONObject_last [OF key vs sv_t])
    then show ?thesis
      unfolding items m using True k by (simp del: JSONObject.simps iterencode_dict.simps)
  next
    case False
    then obtain p kvs' where kvs: "kvs = p # kvs'" by (cases kvs) simp_all
    obtain k' v' where p: "p = (k', v')" by (cases p)
    from nd kvs p obtain ks' where k': "k' = KStr ks'" by (cases k') simp_all
    from nd kvs p have nv': "json_native v'" by simp
    let ?after = "tl (py_encode_basestring_ascii ks') @ [58, 32] @ fst (iterencode v')
        @ fst (iterencode_dict False kvs')"
    have te: "?tail = 44 # 32 # 34 # ?after"
      unfolding kvs p k'
      by (simp add: enc_dict_cons [OF nv'] py_encode_basestring_ascii_def del: iterencode_dict.simps)
    have len': "length (drop 3 ?tail) \<le> m" using lt by simp
    have "JSONObject m (drop 3 ?tail @ rest'') = Some (kvs, rest'')"
      using "13.IH"(2) [OF nd False len'] .
    then have rec: "JSONObject m (?after @ rest'') = Some (kvs, rest'')"
      unfolding te by simp
    have sv': "scan_once m (c # (r @ ?tail @ rest'')) = Some (v, 44 # 32 # 34 # (?after @ rest''))"
      using sv unfolding te by simp
    have "JSONObject (Suc m) (?tk @ [58, 32] @ ?tv @ ?tail @ rest'') = Some ((KStr ks, v) # kvs, rest'')"
      by (rule JSONObject_more [OF key vs sv' rec])
    then show ?thesis
      unfolding items m using k by (simp del: JSONObject.simps iterencode_dict.simps)
  qed
qed

lemma json_roundtrip:
  assumes "json_native v"
  shows "json_dumps v = Inr (fst (iterencode v))" and "json_loads (fst (iterencode v)) = Inr v"
proof -
  show "json_dumps v = Inr (fst (iterencode v))"
    using native_encodes(1) [OF assms] by (cases "iterencode v") (simp add: json_dumps_def)
  obtain c r where cr: "fst (iterencode v) = c # r" and vs: "value_start c"
    using enc_start [OF assms] by blast
  have sk: "skip_ws (fst (iterencode v)) = fst (iterencode v)"
    unfolding cr using value_start_not_ws [OF vs] by (simp add: skip_ws_start)
  have "scan_once (Suc (length (fst (iterencode v)))) (fst (iterencode v) @ []) = Some (v, [])"
    by (rule roundtrip_main(1) [OF assms]) (simp_all add: delimited_def)
  moreover have "skip_ws [] = []" by (simp add: skip_ws_def)
  ultimately show "json_loads (fst (iterencode v)) = Inr v"
    by (simp add: json_loads_def sk)
qed

section \<open>The decoder and the grammar\<close>
















section \<open>Facts about sample runs\<close>

lemmas run_defs = run_def get_calendar_details_def seq_def py_open_def json_load_def
  GoogleOAuthManager_def authenticate_via_local_server_def json_dump_def fp_write_def log_def Let_def

lemma demo_trace_ok:
  "trace (snd (run (demo_env (Inr demo_token)) demo_fs)) = full_trace demo_secrets demo_manager demo_token"
  by code_simp

lemma demo_result_ok: "fst (run (demo_env (Inr demo_token)) demo_fs) = Inr ()"
  by code_simp

lemma demo_file_ok:
  "files (snd (run (demo_env (Inr demo_token)) demo_fs)) ''user_token.json''
     = Some (jtext ''{'token': 'new', 'expires_in': 3599}'')"
  by code_simp

lemma demo_trace_fault:
  "trace (snd (run (demo_env (Inl (LibraryFault ''access_denied''))) demo_fs)) =
     [Open ''credentials.json'' Mode_r, JsonLoad ''credentials.json'', ManagerInit demo_secrets None,
      AuthCall demo_manager [CALENDAR]]"
  by code_simp

lemma demo_authenticate [simp]: "authenticate (demo_env res) m scopes = res"
  by (simp add: demo_env_def)

lemma demo_os_fault [simp]: "os_fault (demo_env res) p md = None"
  by (simp add: demo_env_def)

section \<open>The claims\<close>

text \<open>
  C1, as amended. On a successful run, \<open>user_token.json\<close> holds exactly the JSON
  serialization of the structure that the authenticate call returned. If that structure
  is JSON-native (built from \<open>None\<close>, booleans, integers, strings without surrogate
  code points, lists, and dictionaries with such strings as keys), then \<open>json.loads\<close>
  of the file's text gives the structure back.
\<close>

theorem token_file_roundtrip_native:
  assumes "fst (run env fs) = Inr ()"
  shows "\<exists>m v t. AuthCall m [CALENDAR] \<in> set (trace (snd (run env fs)))
       \<and> authenticate env m [CALENDAR] = Inr v
       \<and> json_dumps v = Inr t
       \<and> files (snd (run env fs)) ''user_token.json'' = Some t
       \<and> (json_native v \<longrightarrow> json_loads t = Inr v)"
proof -
  have "\<exists>m v t. AuthCall m [CALENDAR] \<in> set (trace (snd (run env fs)))
       \<and> authenticate env m [CALENDAR] = Inr v
       \<and> json_dumps v = Inr t
       \<and> files (snd (run env fs)) ''user_token.json'' = Some t"
    using assms unfolding run_defs json_dumps_def
    by (auto split: option.splits sum.splits prod.splits if_splits)
  then obtain m v t where a: "AuthCall m [CALENDAR] \<in> set (trace (snd (run env fs)))"
    and b: "authenticate env m [CALENDAR] = Inr v" and c: "json_dumps v = Inr t"
    and d: "files (snd (run env fs)) ''user_token.json'' = Some t"
    by blast
  have "json_loads t = Inr v" if "json_native v"
    using json_roundtrip [OF that] c by simp
  with a b c d show ?thesis by blast
qed

theorem token_file_roundtrip_native_witness:
  "fst (run (demo_env (Inr demo_token)) demo_fs) = Inr ()
   \<and> json_native demo_token
   \<and> (\<exists>m v t. AuthCall m [CALENDAR] \<in> set (trace (snd (run (demo_env (Inr demo_token)) demo_fs)))
        \<and> authenticate (demo_env (Inr demo_token)) m [CALENDAR] = Inr v
        \<and> json_dumps v = Inr t
        \<and> files (snd (run (demo_env (Inr demo_token)) demo_fs)) ''user_token.json'' = Some t
        \<and> json_loads t = Inr v)"
proof -
  have h: "fst (run (demo_env (Inr demo_token)) demo_fs) = Inr ()"
    by (rule demo_result_ok)
  have n: "json_native demo_token"
    by (simp add: demo_token_def ascii_def scalar_value_def)
  obtain m v t where
    a: "AuthCall m [CALENDAR] \<in> set (trace (snd (run (demo_env (Inr demo_token)) demo_fs)))"
    and b: "authenticate (demo_env (Inr demo_token)) m [CALENDAR] = Inr v"
    and c: "json_dumps v = Inr t"
    and d: "files (snd (run (demo_env (Inr demo_token)) demo_fs)) ''user_token.json'' = Some t"
    and e: "json_native v \<longrightarrow> json_loads t = Inr v"
    using token_file_roundtrip_native [OF h] by blast
  from b have "v = demo_token" by simp
  with n e have "json_loads t = Inr v" by simp
  with h n a b c d show ?thesis by blast
qed

text \<open>
  The round trip of C1 does not hold for every structure: a dictionary with the keys
  \<open>1\<close> and \<open>'1'\<close> is written with the key \<open>"1"\<close> twice, and the file parses
  to a dictionary with one entry.
\<close>

theorem token_file_roundtrip_counterexample:
  "fst (run (demo_env (Inr clash_token)) demo_fs) = Inr ()
   \<and> authenticate (demo_env (Inr clash_token)) demo_manager [CALENDAR] = Inr clash_token
   \<and> clash_token = PDict [(KInt 1, PStr (ascii ''a'')), (KStr (ascii ''1''), PStr (ascii ''b''))]
   \<and> files (snd (run (demo_env (Inr clash_token)) demo_fs)) ''user_token.json''
        = Some (jtext ''{'1': 'a', '1': 'b'}'')
   \<and> json_loads (jtext ''{'1': 'a', '1': 'b'}'') = Inr (PDict [(KStr (ascii ''1''), PStr (ascii ''b''))])
   \<and> PDict [(KStr (ascii ''1''), PStr (ascii ''b''))] \<noteq> clash_token"
  by code_simp

text \<open>
  C2. Whatever the environment and the file system (so whatever the secrets file
  holds), every call of the authenticate method that a run makes passes the scope list
  with the single entry \<open>Scopes.CALENDAR\<close>.
\<close>

theorem authenticate_scopes_calendar_only:
  "AuthCall m scopes \<in> set (trace (snd (run env fs))) \<Longrightarrow> scopes = [CALENDAR] \<and> length scopes = 1"
  unfolding run_defs
  by (auto split: option.splits sum.splits prod.splits if_splits)

theorem authenticate_scopes_calendar_only_witness:
  "AuthCall demo_manager [CALENDAR] \<in> set (trace (snd (run (demo_env (Inr demo_token)) demo_fs)))
   \<and> length [CALENDAR] = 1"
proof -
  have h: "AuthCall demo_manager [CALENDAR] \<in> set (trace (snd (run (demo_env (Inr demo_token)) demo_fs)))"
    by (simp add: demo_trace_ok full_trace_def)
  show ?thesis using h authenticate_scopes_calendar_only [OF h] by simp
qed

text \<open>
  C3. If the authenticate call of a run raises, the run ends with that fault, the file
  system is as it was before the run (so \<open>user_token.json\<close> is neither created nor
  modified), and the output file has not been opened.
\<close>

theorem authenticate_fault_leaves_files:
  assumes "AuthCall m scopes \<in> set (trace (snd (run env fs)))"
    and "authenticate env m scopes = Inl e"
  shows "fst (run env fs) = Inl e
     \<and> files (snd (run env fs)) ''user_token.json'' = fs ''user_token.json''
     \<and> files (snd (run env fs)) = fs
     \<and> Open ''user_token.json'' Mode_w \<notin> set (trace (snd (run env fs)))"
  using assms unfolding run_defs
  by (auto split: option.splits sum.splits prod.splits if_splits)

theorem authenticate_fault_leaves_files_witness:
  "AuthCall demo_manager [CALENDAR]
      \<in> set (trace (snd (run (demo_env (Inl (LibraryFault ''access_denied''))) demo_fs)))
   \<and> authenticate (demo_env (Inl (LibraryFault ''access_denied''))) demo_manager [CALENDAR]
       = Inl (LibraryFault ''access_denied'')
   \<and> fst (run (demo_env (Inl (LibraryFault ''access_denied''))) demo_fs) = Inl (LibraryFault ''access_denied'')
   \<and> files (snd (run (demo_env (Inl (LibraryFault ''access_denied''))) demo_fs)) ''user_token.json''
       = Some (jtext ''{'token': 'old'}'')"
proof -
  have h1: "AuthCall demo_manager [CALENDAR]
      \<in> set (trace (snd (run (demo_env (Inl (LibraryFault ''access_denied''))) demo_fs)))"
    by (simp add: demo_trace_fault)
  have h2: "authenticate (demo_env (Inl (LibraryFault ''access_denied''))) demo_manager [CALENDAR]
       = Inl (LibraryFault ''access_denied'')"
    by simp
  show ?thesis
    using h1 h2 authenticate_fault_leaves_files [OF h1 h2] by (simp add: demo_fs_def)
qed




text \<open>
  C5. A successful run on a file system where \<open>user_token.json\<close> holds any text
  \<open>old\<close> leaves in that file exactly the serialization of the structure that the
  authenticate call returned: the same text that the run leaves when the file did not
  exist before. Nothing of \<open>old\<close> is in it.
\<close>

theorem token_file_overwritten:
  assumes "fst (run env (fs(''user_token.json'' \<mapsto> old))) = Inr ()"
  shows "\<exists>m v t. AuthCall m [CALENDAR] \<in> set (trace (snd (run env (fs(''user_token.json'' \<mapsto> old)))))
       \<and> authenticate env m [CALENDAR] = Inr v
       \<and> json_dumps v = Inr t
       \<and> files (snd (run env (fs(''user_token.json'' \<mapsto> old)))) ''user_token.json'' = Some t
       \<and> files (snd (run env (fs(''user_token.json'' := None)))) ''user_token.json'' = Some t"
  using assms unfolding run_defs json_dumps_def
  by (auto split: option.splits sum.splits prod.splits if_splits)

theorem token_file_overwritten_witness:
  "fst (run (demo_env (Inr demo_token)) (demo_fs(''user_token.json'' \<mapsto> jtext ''{'token': 'old'}''))) = Inr ()
   \<and> files (snd (run (demo_env (Inr demo_token)) (demo_fs(''user_token.json'' \<mapsto> jtext ''{'token': 'old'}''))))
        ''user_token.json'' = Some (jtext ''{'token': 'new', 'expires_in': 3599}'')
   \<and> (\<exists>m v t. AuthCall m [CALENDAR]
          \<in> set (trace (snd (run (demo_env (Inr demo_token)) (demo_fs(''user_token.json'' \<mapsto> jtext ''{'token': 'old'}'')))))
       \<and> authenticate (demo_env (Inr demo_token)) m [CALENDAR] = Inr v
       \<and> json_dumps v = Inr t
       \<and> files (snd (run (demo_env (Inr demo_token)) (demo_fs(''user_token.json'' \<mapsto> jtext ''{'token': 'old'}''))))
            ''user_token.json'' = Some t
       \<and> files (snd (run (demo_env (Inr demo_token)) (demo_fs(''user_token.json'' := None))))
            ''user_token.json'' = Some t)"
proof -
  have h: "fst (run (demo_env (Inr demo_token)) (demo_fs(''user_token.json'' \<mapsto> jtext ''{'token': 'old'}''))) = Inr ()"
    by code_simp
  have f: "files (snd (run (demo_env (Inr demo_token)) (demo_fs(''user_token.json'' \<mapsto> jtext ''{'token': 'old'}''))))
        ''user_token.json'' = Some (jtext ''{'token': 'new', 'expires_in': 3599}'')"
    by code_simp
  show ?thesis using h f token_file_overwritten [OF h] by blast
qed

text \<open>
  C6. The script passes no redirect URI to the constructor, and the manager that the
  authenticate call of a run receives has the redirect target
  \<open>http://localhost:8080\<close>: the loopback address on port 8080.
\<close>

theorem redirect_uri_default:
  "(ManagerInit secrets redirect \<in> set (trace (snd (run env fs))) \<longrightarrow> redirect = None)
   \<and> (AuthCall m scopes \<in> set (trace (snd (run env fs))) \<longrightarrow> redirect_uri m = ''http://localhost:8080'')"
  unfolding run_defs
  by (auto split: option.splits sum.splits prod.splits if_splits)

theorem redirect_uri_default_witness:
  "ManagerInit demo_secrets None \<in> set (trace (snd (run (demo_env (Inr demo_token)) demo_fs)))
   \<and> AuthCall demo_manager [CALENDAR] \<in> set (trace (snd (run (demo_env (Inr demo_token)) demo_fs)))
   \<and> redirect_uri demo_manager = ''http://localhost:8080''"
proof -
  have h1: "ManagerInit demo_secrets None \<in> set (trace (snd (run (demo_env (Inr demo_token)) demo_fs)))"
    by (simp add: demo_trace_ok full_trace_def)
  have h2: "AuthCall demo_manager [CALENDAR] \<in> set (trace (snd (run (demo_env (Inr demo_token)) demo_fs)))"
    by (simp add: demo_trace_ok full_trace_def)
  show ?thesis
    using h1 h2
      redirect_uri_default [where secrets = demo_secrets and redirect = None and m = demo_manager
        and scopes = "[CALENDAR]" and env = "demo_env (Inr demo_token)" and fs = demo_fs]
    by simp
qed

text \<open>
  C7. After any run, successful or not, \<open>credentials.json\<close> holds what it held
  before (or is absent as before); the run opens it in mode \<open>'r'\<close> only and never
  dumps into it.
\<close>

theorem credentials_never_written:
  "files (snd (run env fs)) ''credentials.json'' = fs ''credentials.json''
   \<and> (\<forall>md. Open ''credentials.json'' md \<in> set (trace (snd (run env fs))) \<longrightarrow> md = Mode_r)
   \<and> (\<forall>v. JsonDump v ''credentials.json'' \<notin> set (trace (snd (run env fs))))"
  unfolding run_defs
  by (auto split: option.splits sum.splits prod.splits if_splits)

theorem credentials_never_written_witness:
  "Open ''credentials.json'' Mode_r \<in> set (trace (snd (run (demo_env (Inr demo_token)) demo_fs)))
   \<and> files (snd (run (demo_env (Inr demo_token)) demo_fs)) ''credentials.json''
       = Some (jtext ''{'installed': {'client_id': 'abc'}}'')
   \<and> files (snd (run (demo_env (Inl (LibraryFault ''access_denied''))) demo_fs)) ''credentials.json''
       = Some (jtext ''{'installed': {'client_id': 'abc'}}'')"
proof -
  have h: "Open ''credentials.json'' Mode_r \<in> set (trace (snd (run (demo_env (Inr demo_token)) demo_fs)))"
    by (simp add: demo_trace_ok full_trace_def)
  show ?thesis
    using h credentials_never_written [of "demo_env (Inr demo_token)" demo_fs]
      credentials_never_written [of "demo_env (Inl (LibraryFault ''access_denied''))" demo_fs]
    by (simp add: demo_fs_def)
qed

text \<open>
  C8. The calls of a run are an initial part of one fixed sequence: open the secrets
  file, load it, construct the manager, authenticate, open the output file, dump. No
  call occurs twice, the output file is opened only after the authenticate call has
  returned a structure, and a run that succeeds has made all six calls.
\<close>

theorem run_is_linear:
  "\<exists>secrets m v.
      prefix (trace (snd (run env fs))) (full_trace secrets m v)
      \<and> (Open ''user_token.json'' Mode_w \<in> set (trace (snd (run env fs)))
            \<longrightarrow> authenticate env m [CALENDAR] = Inr v)
      \<and> (fst (run env fs) = Inr () \<longrightarrow> trace (snd (run env fs)) = full_trace secrets m v)
      \<and> (files (snd (run env fs)) \<noteq> fs
            \<longrightarrow> Open ''user_token.json'' Mode_w \<in> set (trace (snd (run env fs))))"
  unfolding run_defs full_trace_def
  by (auto split: option.splits sum.splits prod.splits if_splits simp: prefix_def)

theorem run_is_linear_witness:
  "Open ''user_token.json'' Mode_w \<in> set (trace (snd (run (demo_env (Inr demo_token)) demo_fs)))
   \<and> fst (run (demo_env (Inr demo_token)) demo_fs) = Inr ()
   \<and> files (snd (run (demo_env (Inr demo_token)) demo_fs)) \<noteq> demo_fs
   \<and> (\<exists>secrets m v.
        prefix (trace (snd (run (demo_env (Inr demo_token)) demo_fs))) (full_trace secrets m v)
        \<and> authenticate (demo_env (Inr demo_token)) m [CALENDAR] = Inr v
        \<and> trace (snd (run (demo_env (Inr demo_token)) demo_fs)) = full_trace secrets m v)"
proof -
  have h1: "Open ''user_token.json'' Mode_w \<in> set (trace (snd (run (demo_env (Inr demo_token)) demo_fs)))"
    by (simp add: demo_trace_ok full_trace_def)
  have h2: "fst (run (demo_env (Inr demo_token)) demo_fs) = Inr ()"
    by (rule demo_result_ok)
  have old: "demo_fs ''user_token.json'' = Some (jtext ''{'token': 'old'}'')"
    by (simp add: demo_fs_def)
  have ne: "jtext ''{'token': 'new', 'expires_in': 3599}'' \<noteq> jtext ''{'token': 'old'}''"
    by (simp add: jtext_def)
  have h3: "files (snd (run (demo_env (Inr demo_token)) demo_fs)) \<noteq> demo_fs"
  proof
    assume "files (snd (run (demo_env (Inr demo_token)) demo_fs)) = demo_fs"
    then have "files (snd (run (demo_env (Inr demo_token)) demo_fs)) ''user_token.json''
        = demo_fs ''user_token.json''"
      by (rule arg_cong)
    with demo_file_ok old ne show False by simp
  qed
  show ?thesis
    using h1 h2 h3 run_is_linear [of "demo_env (Inr demo_token)" demo_fs] by auto
qed

text \<open>
  C9. If the authenticate call returns a structure that the encoder rejects after
  having yielded the text \<open>t\<close> (possibly empty), and the output file can be opened,
  then the run opens (and so truncates) the file, calls \<open>json.dump\<close>, ends with the
  encoder's fault, and leaves in \<open>user_token.json\<close> the text \<open>t\<close> and nothing of what
  the file held.
\<close>

theorem dump_fault_truncates:
  assumes "AuthCall m scopes \<in> set (trace (snd (run env fs)))"
    and "authenticate env m scopes = Inr v"
    and "iterencode v = (t, Some e)"
    and "os_fault env ''user_token.json'' Mode_w = None"
  shows "fst (run env fs) = Inl e
     \<and> files (snd (run env fs)) ''user_token.json'' = Some t
     \<and> (\<exists>secrets. trace (snd (run env fs)) = full_trace secrets m v)"
  using assms unfolding run_defs full_trace_def
  by (auto split: option.splits sum.splits prod.splits if_splits)

theorem dump_fault_truncates_witness:
  "AuthCall demo_manager [CALENDAR]
      \<in> set (trace (snd (run (demo_env (Inr (PList [PInt 1, PObject ''Credentials'']))) demo_fs)))
   \<and> iterencode (PList [PInt 1, PObject ''Credentials'']) = (ascii ''[1, '', Some TypeError)
   \<and> demo_fs ''user_token.json'' = Some (jtext ''{'token': 'old'}'')
   \<and> fst (run (demo_env (Inr (PList [PInt 1, PObject ''Credentials'']))) demo_fs) = Inl TypeError
   \<and> files (snd (run (demo_env (Inr (PList [PInt 1, PObject ''Credentials'']))) demo_fs)) ''user_token.json''
       = Some (ascii ''[1, '')
   \<and> AuthCall demo_manager [CALENDAR]
      \<in> set (trace (snd (run (demo_env (Inr (PObject ''Credentials''))) demo_fs)))
   \<and> iterencode (PObject ''Credentials'') = ([], Some TypeError)
   \<and> fst (run (demo_env (Inr (PObject ''Credentials''))) demo_fs) = Inl TypeError
   \<and> files (snd (run (demo_env (Inr (PObject ''Credentials''))) demo_fs)) ''user_token.json'' = Some []"
proof -
  have a1: "AuthCall demo_manager [CALENDAR]
      \<in> set (trace (snd (run (demo_env (Inr (PList [PInt 1, PObject ''Credentials'']))) demo_fs)))"
    by code_simp
  have a2: "iterencode (PList [PInt 1, PObject ''Credentials'']) = (ascii ''[1, '', Some TypeError)"
    by code_simp
  have b1: "AuthCall demo_manager [CALENDAR]
      \<in> set (trace (snd (run (demo_env (Inr (PObject ''Credentials''))) demo_fs)))"
    by code_simp
  have b2: "iterencode (PObject ''Credentials'') = ([], Some TypeError)"
    by code_simp
  show ?thesis
    using a1 a2 b1 b2
      dump_fault_truncates [OF a1 _ a2] dump_fault_truncates [OF b1 _ b2]
    by (simp add: demo_fs_def)
qed

text \<open>
  C10, as amended. The text in \<open>user_token.json\<close> after a run that reached the dump
  is a function of the structure returned by the authenticate call, taken with the
  types of its parts and the order of its dictionary entries, and of nothing else: two
  runs, in any two environments and on any two file systems, whose authenticate calls
  return the same such structure leave the same text there, namely what the encoder
  yields for it.
\<close>

theorem token_file_deterministic:
  assumes "AuthCall m1 s1 \<in> set (trace (snd (run env1 fs1)))"
    and "authenticate env1 m1 s1 = Inr v"
    and "os_fault env1 ''user_token.json'' Mode_w = None"
    and "AuthCall m2 s2 \<in> set (trace (snd (run env2 fs2)))"
    and "authenticate env2 m2 s2 = Inr v"
    and "os_fault env2 ''user_token.json'' Mode_w = None"
  shows "files (snd (run env1 fs1)) ''user_token.json'' = files (snd (run env2 fs2)) ''user_token.json''
     \<and> files (snd (run env1 fs1)) ''user_token.json'' = Some (fst (iterencode v))"
proof -
  have one: "files (snd (run env fs)) ''user_token.json'' = Some (fst (iterencode v))"
    if "AuthCall m s \<in> set (trace (snd (run env fs)))" and "authenticate env m s = Inr v"
      and "os_fault env ''user_token.json'' Mode_w = None" for env fs m s
    using that unfolding run_defs
    by (auto split: option.splits sum.splits prod.splits if_splits)
  show ?thesis
    using one [OF assms(1-3)] one [OF assms(4-6)] by simp
qed

theorem token_file_deterministic_witness:
  "AuthCall demo_manager [CALENDAR] \<in> set (trace (snd (run (demo_env (Inr demo_token)) demo_fs)))
   \<and> AuthCall \<lparr>client_secrets_dict = PDict [], redirect_uri = ''http://localhost:8080''\<rparr> [CALENDAR]
       \<in> set (trace (snd (run (demo_env (Inr demo_token)) [''credentials.json'' \<mapsto> ascii ''{}''])))
   \<and> files (snd (run (demo_env (Inr demo_token)) demo_fs)) ''user_token.json''
       = files (snd (run (demo_env (Inr demo_token)) [''credentials.json'' \<mapsto> ascii ''{}''])) ''user_token.json''
   \<and> files (snd (run (demo_env (Inr demo_token)) demo_fs)) ''user_token.json''
       = Some (jtext ''{'token': 'new', 'expires_in': 3599}'')"
proof -
  have h1: "AuthCall demo_manager [CALENDAR] \<in> set (trace (snd (run (demo_env (Inr demo_token)) demo_fs)))"
    by (simp add: demo_trace_ok full_trace_def)
  have h2: "AuthCall \<lparr>client_secrets_dict = PDict [], redirect_uri = ''http://localhost:8080''\<rparr> [CALENDAR]
       \<in> set (trace (snd (run (demo_env (Inr demo_token)) [''credentials.json'' \<mapsto> ascii ''{}''])))"
    by code_simp
  have a: "authenticate (demo_env (Inr demo_token)) m [CALENDAR] = Inr demo_token" for m
    by simp
  have o: "os_fault (demo_env (Inr demo_token)) ''user_token.json'' Mode_w = None"
    by simp
  have t: "files (snd (run (demo_env (Inr demo_token)) demo_fs)) ''user_token.json''
       = files (snd (run (demo_env (Inr demo_token)) [''credentials.json'' \<mapsto> ascii ''{}''])) ''user_token.json''"
    using token_file_deterministic [OF h1 a o h2 a o] by (rule conjunct1)
  from h1 h2 t demo_file_ok show ?thesis
    by (intro conjI)
qed

text \<open>
  C10 does not hold for structures that are merely equal for Python's \<open>==\<close>: two
  dictionaries with the same entries in different orders are equal, and the two runs
  write different texts.
\<close>

theorem python_equal_tokens_counterexample:
  "py_eq token_ab token_ba
   \<and> authenticate (demo_env (Inr token_ab)) demo_manager [CALENDAR] = Inr token_ab
   \<and> authenticate (demo_env (Inr token_ba)) demo_manager [CALENDAR] = Inr token_ba
   \<and> fst (run (demo_env (Inr token_ab)) demo_fs) = Inr ()
   \<and> fst (run (demo_env (Inr token_ba)) demo_fs) = Inr ()
   \<and> files (snd (run (demo_env (Inr token_ab)) demo_fs)) ''user_token.json''
       = Some (jtext ''{'a': 1, 'b': 2}'')
   \<and> files (snd (run (demo_env (Inr token_ba)) demo_fs)) ''user_token.json''
       = Some (jtext ''{'b': 2, 'a': 1}'')
   \<and> files (snd (run (demo_env (Inr token_ab)) demo_fs)) ''user_token.json''
       \<noteq> files (snd (run (demo_env (Inr token_ba)) demo_fs)) ''user_token.json''"
  by code_simp

end
